theory Spec2Isabelle
  imports Main "HOL-Library.Word"
begin

unbundle bit_operations_syntax

section \<open>The powerfulness checker of \<open>ispowerful.c\<close>\<close>

text \<open>
  \<open>unsigned long int\<close> is taken at 64 bits (the LP64 data model); every operation on it
  wraps modulo \<open>2 ^ 64\<close>, as \<open>64 word\<close> does. The C \<open>int\<close> result is an \<open>int\<close>: only
  \<open>-1\<close>, \<open>0\<close> and \<open>1\<close> are ever returned.

  A loop of the C code is a \<^theory_text>\<open>partial_function\<close> in the option monad: \<open>None\<close>
  stands for a run that yields no value (the loop never ends, or the division by zero of
  \<open>number % divisor\<close>, which is undefined in C).
\<close>

type_synonym ulong = "64 word"

text \<open>
  Lines 37 to 40: \<open>while ((number & 1) == 0) { number >>= 1; ++exponent; }\<close>.
  The result is the pair of \<open>number\<close> and \<open>exponent\<close> when the loop is left.
\<close>

partial_function (option) strip2 :: "ulong \<Rightarrow> ulong \<Rightarrow> (ulong \<times> ulong) option" where
  "strip2 number exponent =
     (if number AND 1 = 0 then strip2 (drop_bit 1 number) (exponent + 1)
      else Some (number, exponent))"

text \<open>
  Lines 45 to 48, 54 to 57 and 64 to 67:
  \<open>while (number % divisor == 0) { number /= divisor; ++exponent; }\<close>.
\<close>

partial_function (option) strip :: "ulong \<Rightarrow> ulong \<Rightarrow> ulong \<Rightarrow> (ulong \<times> ulong) option" where
  "strip number divisor exponent =
     (if divisor = 0 then None
      else if number mod divisor = 0 then strip (number div divisor) divisor (exponent + 1)
      else Some (number, exponent))"

text \<open>
  Lines 52 to 73: the \<open>for\<close> loop over the divisors, entered with the current \<open>number\<close>
  and \<open>divisor\<close>, and the final test of the residual behind it.
\<close>

partial_function (option) wheel :: "ulong \<Rightarrow> ulong \<Rightarrow> int option" where
  "wheel number divisor =
     (if divisor * divisor \<le> number then
        (case strip number divisor 0 of
           None \<Rightarrow> None
         | Some (number1, exponent1) \<Rightarrow>
             if exponent1 = 1 then Some 0
             else (case strip number1 (divisor + 2) 0 of
                     None \<Rightarrow> None
                   | Some (number2, exponent2) \<Rightarrow>
                       if exponent2 = 1 then Some 0
                       else wheel number2 (divisor + 2 + 4)))
      else if number = 1 then Some 1 else Some 0)"

definition ispowerful :: "ulong \<Rightarrow> int option" where
  "ispowerful number =
     (if number = 0 then Some (- 1)
      else
        (case strip2 number 0 of
           None \<Rightarrow> None
         | Some (number1, exponent1) \<Rightarrow>
             if exponent1 = 1 then Some 0
             else (case strip number1 3 0 of
                     None \<Rightarrow> None
                   | Some (number2, exponent2) \<Rightarrow>
                       if exponent2 = 1 then Some 0
                       else wheel number2 5)))"

section \<open>The same run, with a trace of what the loop looks at\<close>

text \<open>
  \<open>wheel_log\<close> is \<open>wheel\<close> with one addition: it also returns, in order,
  \<^item> \<open>Cond divisor number\<close> for each evaluation of the loop condition
    \<open>divisor * divisor <= number\<close> (line 52), and
  \<^item> \<open>Try divisor number\<close> for each entry to an inner stripping loop (lines 54 and 64)
    with the values that \<open>divisor\<close> and \<open>number\<close> have there.
  Nothing else differs; \<open>wheel_erase\<close> and \<open>ispowerful_erase\<close> below prove that
  forgetting the trace gives back \<open>wheel\<close> and \<open>ispowerful\<close>.
\<close>

datatype event = Cond ulong ulong | Try ulong ulong

partial_function (option) wheel_log :: "ulong \<Rightarrow> ulong \<Rightarrow> (int \<times> event list) option" where
  "wheel_log number divisor =
     (if divisor * divisor \<le> number then
        (case strip number divisor 0 of
           None \<Rightarrow> None
         | Some (number1, exponent1) \<Rightarrow>
             if exponent1 = 1 then Some (0, [Cond divisor number, Try divisor number])
             else (case strip number1 (divisor + 2) 0 of
                     None \<Rightarrow> None
                   | Some (number2, exponent2) \<Rightarrow>
                       if exponent2 = 1
                       then Some (0, [Cond divisor number, Try divisor number,
                                      Try (divisor + 2) number1])
                       else Option.bind (wheel_log number2 (divisor + 2 + 4))
                              (\<lambda>(v, t). Some (v, Cond divisor number # Try divisor number #
                                                   Try (divisor + 2) number1 # t))))
      else Some (if number = 1 then 1 else 0, [Cond divisor number]))"

definition ispowerful_log :: "ulong \<Rightarrow> (int \<times> event list) option" where
  "ispowerful_log number =
     (if number = 0 then Some (- 1, [])
      else
        (case strip2 number 0 of
           None \<Rightarrow> None
         | Some (number1, exponent1) \<Rightarrow>
             if exponent1 = 1 then Some (0, [])
             else (case strip number1 3 0 of
                     None \<Rightarrow> None
                   | Some (number2, exponent2) \<Rightarrow>
                       if exponent2 = 1 then Some (0, [])
                       else wheel_log number2 5)))"

section \<open>Powerful numbers\<close>

text \<open>
  A prime has no divisor between 2 and itself; a number is powerful when the square of
  each of its prime divisors divides it. Both are written over bounded ranges, so that
  they can be evaluated; \<open>is_prime_iff\<close> and \<open>powerful_iff\<close> give the usual unbounded
  readings.
\<close>

definition is_prime :: "nat \<Rightarrow> bool" where
  "is_prime p = (1 < p \<and> (\<forall>k \<in> {2..<p}. \<not> k dvd p))"

definition powerful :: "nat \<Rightarrow> bool" where
  "powerful n = (\<forall>p \<in> {2..n}. is_prime p \<and> p dvd n \<longrightarrow> p * p dvd n)"

text \<open>\<open>nofactor d r\<close>: nothing from 2 up to, but not including, \<open>d\<close> divides \<open>r\<close>.\<close>

definition nofactor :: "nat \<Rightarrow> nat \<Rightarrow> bool" where
  "nofactor d r = (\<forall>k \<in> {2..<d}. \<not> k dvd r)"

section \<open>Reading a trace\<close>

text \<open>The divisors whose stripping loop was entered, in order, as numbers.\<close>

fun tried :: "event list \<Rightarrow> nat list" where
  "tried [] = []"
| "tried (Cond d r # t) = tried t"
| "tried (Try d r # t) = unat d # tried t"

text \<open>
  \<open>wheel_from c xs\<close>: the list \<open>xs\<close> is an initial segment of the numbers coprime to 6
  from \<open>c\<close> on, in increasing order: after a number that is 5 modulo 6 comes that number
  plus 2, after any other comes that number plus 4. From 5 on this is 5, 7, 11, 13, 17, 19, ...
\<close>

fun wheel_from :: "nat \<Rightarrow> nat list \<Rightarrow> bool" where
  "wheel_from c [] = True"
| "wheel_from c (x # xs) = (x = c \<and> wheel_from (if c mod 6 = 5 then c + 2 else c + 4) xs)"

text \<open>
  \<open>lim\<close> is \<open>2 ^ 32 - 5\<close>, the largest divisor the loop condition can meet whose
  square is below \<open>2 ^ 64\<close>: the next one, \<open>2 ^ 32 + 1\<close>, has a square that wraps around.
\<close>

definition lim :: nat where
  "lim = 4294967291"

text \<open>
  What holds at every event of a run on an input of at most \<open>M\<close>: the loop invariant, and
  how far the divisor can have come.
\<close>

fun good :: "nat \<Rightarrow> event \<Rightarrow> bool" where
  "good M (Cond d r) =
     (unat d mod 6 = 5 \<and> 0 < unat r \<and> nofactor (unat d) (unat r) \<and>
      (unat d \<le> lim \<or> lim * lim \<le> M))"
| "good M (Try c r) =
     (5 \<le> unat c \<and> 0 < unat r \<and> nofactor (unat c) (unat r) \<and>
      (unat c mod 6 = 5 \<longrightarrow> c * c \<le> r) \<and>
      (unat c \<le> lim + 2 \<or> lim * lim \<le> M))"

section \<open>Properties of a trace\<close>

text \<open>
  The loop invariant at an event. At \<open>Cond d r\<close>: no prime below \<open>d\<close> divides \<open>r\<close>. At
  \<open>Try c r\<close> with \<open>c\<close> composite: \<open>c\<close> does not divide \<open>r\<close>, and the stripping loop
  leaves \<open>r\<close> as it is, with exponent 0.
\<close>

fun stripped_below :: "event \<Rightarrow> bool" where
  "stripped_below (Cond d r) = (\<forall>p \<in> {2..<unat d}. is_prime p \<longrightarrow> \<not> p dvd unat r)"
| "stripped_below (Try c r) =
     (\<not> is_prime (unat c) \<longrightarrow> r mod c \<noteq> 0 \<and> strip r c 0 = Some (r, 0))"

text \<open>The product \<open>divisor * divisor\<close> of a loop condition does not wrap around.\<close>

fun cond_exact :: "event \<Rightarrow> bool" where
  "cond_exact (Cond d r) = (unat d * unat d < 2 ^ 64)"
| "cond_exact (Try c r) = True"

text \<open>
  \<open>guard_held\<close>: a divisor that is stripped (it divides the number it is tried on) has its
  square at most that number.
\<close>

fun guard_held :: "event \<Rightarrow> bool" where
  "guard_held (Cond d r) = True"
| "guard_held (Try c r) = (r mod c = 0 \<longrightarrow> c * c \<le> r)"

text \<open>
  \<open>first_guarded N\<close>, for a run on the input \<open>N\<close>: when the first divisor of a pair (the one
  that is 5 modulo 6) is tried, whether it divides or not, the comparison of the code
  \<open>divisor * divisor <= number\<close> holds in its 64 bits; and when \<open>N\<close> is below
  \<open>(2 ^ 32 - 5)\<^sup>2\<close> the bound holds of the product that is not cut to 64 bits.
\<close>

fun first_guarded :: "nat \<Rightarrow> event \<Rightarrow> bool" where
  "first_guarded N (Cond d r) = True"
| "first_guarded N (Try c r) =
     (unat c mod 6 = 5 \<longrightarrow>
        c * c \<le> r \<and> (N < 18446744030759878681 \<longrightarrow> unat c * unat c \<le> unat r))"

text \<open>
  The order of the events of the loop, with nothing left out. \<open>at_cond t\<close>: the trace \<open>t\<close>
  starts at an evaluation of the loop condition. If the condition holds (also with
  equality, \<open>divisor * divisor = number\<close>), the very next event is the trial of that divisor
  on that number; if it fails, the trace ends there. \<open>at_first t\<close>: \<open>t\<close> starts at the trial of
  the first divisor \<open>c\<close> of a pair. If its stripping loop ends with exponent 1 the trace
  ends (the function returns); otherwise the very next event is the trial of \<open>c + 2\<close> on
  the stripped number. \<open>at_second t\<close>: \<open>t\<close> starts at the trial of the second divisor \<open>c\<close>
  of a pair; unless the exponent is 1, the very next event is the loop condition for
  \<open>c + 4\<close> on the stripped number.
\<close>

fun starts_with :: "event \<Rightarrow> event list \<Rightarrow> bool" where
  "starts_with e [] = False"
| "starts_with e (x # t) = (x = e)"

fun at_cond :: "event list \<Rightarrow> bool"
  and at_first :: "event list \<Rightarrow> bool"
  and at_second :: "event list \<Rightarrow> bool" where
  "at_cond (Cond d r # t) =
     (if d * d \<le> r then starts_with (Try d r) t \<and> at_first t else t = [])"
| "at_cond (Try c r # t) = False"
| "at_cond [] = False"
| "at_first (Try c r # t) =
     (case strip r c 0 of
        None \<Rightarrow> False
      | Some (r1, e) \<Rightarrow>
          if e = 1 then t = [] else starts_with (Try (c + 2) r1) t \<and> at_second t)"
| "at_first (Cond d r # t) = False"
| "at_first [] = False"
| "at_second (Try c r # t) =
     (case strip r c 0 of
        None \<Rightarrow> False
      | Some (r1, e) \<Rightarrow>
          if e = 1 then t = [] else starts_with (Cond (c + 4) r1) t \<and> at_cond t)"
| "at_second (Cond d r # t) = False"
| "at_second [] = False"

text \<open>
  \<open>wheel_entered n t\<close>: the trace \<open>t\<close> of a run on \<open>n\<close> is empty exactly when the function
  returns before the loop, on an exponent 1 of the factor 2 or 3; otherwise it starts with
  the loop condition for the divisor 5 on what the two stripping loops left of \<open>n\<close>.
\<close>

definition wheel_entered :: "ulong \<Rightarrow> event list \<Rightarrow> bool" where
  "wheel_entered n t =
     (case strip2 n 0 of
        None \<Rightarrow> False
      | Some (r1, e1) \<Rightarrow>
          if e1 = 1 then t = []
          else (case strip r1 3 0 of
                  None \<Rightarrow> False
                | Some (r2, e2) \<Rightarrow> if e2 = 1 then t = [] else starts_with (Cond 5 r2) t))"

section \<open>The algorithm as the spec words it\<close>

text \<open>
  Section 4.1 of the spec, steps 1 to 5, on the same 64-bit unsigned numbers: strip the
  factors of 2, then of 3, then of each candidate 5, 7, 11, 13, ... (the step alternates
  between 2 and 4), and test every candidate, the second of a pair included, only while
  \<open>divisor * divisor <= remaining value\<close>; an exponent of exactly 1 gives \<open>NotPowerful\<close>, and
  behind the loop the residual 1 gives \<open>Powerful\<close>. \<open>code\<close> is the integer encoding of
  section 6.
\<close>

datatype classification = Powerful | NotPowerful | InvalidInput

fun code :: "classification \<Rightarrow> int" where
  "code Powerful = 1"
| "code NotPowerful = 0"
| "code InvalidInput = - 1"

partial_function (option) guarded_wheel ::
    "ulong \<Rightarrow> ulong \<Rightarrow> ulong \<Rightarrow> classification option" where
  "guarded_wheel remaining divisor step =
     (if divisor * divisor \<le> remaining then
        (case strip remaining divisor 0 of
           None \<Rightarrow> None
         | Some (remaining1, exponent) \<Rightarrow>
             if exponent = 1 then Some NotPowerful
             else guarded_wheel remaining1 (divisor + step) (6 - step))
      else Some (if remaining = 1 then Powerful else NotPowerful))"

definition classify :: "ulong \<Rightarrow> classification option" where
  "classify n =
     (if n = 0 then Some InvalidInput
      else
        (case strip n 2 0 of
           None \<Rightarrow> None
         | Some (remaining1, exponent1) \<Rightarrow>
             if exponent1 = 1 then Some NotPowerful
             else (case strip remaining1 3 0 of
                     None \<Rightarrow> None
                   | Some (remaining2, exponent2) \<Rightarrow>
                       if exponent2 = 1 then Some NotPowerful
                       else guarded_wheel remaining2 5 2)))"

text \<open>
  \<open>cand c s\<close>: \<open>c\<close> is a candidate of the wheel and \<open>s\<close> the step to the next one.
\<close>

definition cand :: "nat \<Rightarrow> ulong \<Rightarrow> bool" where
  "cand c s = (5 \<le> c \<and> (c mod 6 = 5 \<and> s = 2 \<or> c mod 6 = 1 \<and> s = 4))"

section \<open>The command line of \<open>main.c\<close>\<close>

text \<open>
  \<open>strtol\<close> is the C library's, not the repository's. It is modelled after the C standard
  (7.22.1.4) for the call \<open>strtol(argv[1], NULL, 0)\<close> with a 64-bit \<open>long\<close>: white space is
  skipped, then an optional sign, then the base is read off the prefix (\<open>0x\<close> or \<open>0X\<close>
  before a hexadecimal digit: 16; a leading \<open>0\<close>: 8; otherwise 10), then the longest run of
  digits of that base is converted. With no digit the value is 0. A value outside
  \<open>LONG_MIN .. LONG_MAX\<close> is replaced by the nearer bound and reported: the flag stands for
  \<open>errno == ERANGE\<close> (\<open>errno\<close> is 0 when the program starts and nothing else sets it
  before the test).
\<close>

definition is_space :: "char \<Rightarrow> bool" where
  "is_space c = (c \<in> set [CHR '' '', CHR 0x09, CHR 0x0A, CHR 0x0B, CHR 0x0C, CHR 0x0D])"

definition digit_of :: "char \<Rightarrow> nat option" where
  "digit_of c =
     (let k = (of_char c :: nat) in
      if 48 \<le> k \<and> k \<le> 57 then Some (k - 48)
      else if 97 \<le> k \<and> k \<le> 122 then Some (k - 87)
      else if 65 \<le> k \<and> k \<le> 90 then Some (k - 55)
      else None)"

fun digits :: "nat \<Rightarrow> string \<Rightarrow> nat list" where
  "digits b [] = []"
| "digits b (c # cs) =
     (case digit_of c of
        None \<Rightarrow> []
      | Some v \<Rightarrow> if v < b then v # digits b cs else [])"

definition magnitude :: "nat \<Rightarrow> nat list \<Rightarrow> nat" where
  "magnitude b ds = foldl (\<lambda>a v. a * b + v) 0 ds"

definition LONG_MAX :: int where
  "LONG_MAX = 9223372036854775807"

definition LONG_MIN :: int where
  "LONG_MIN = - 9223372036854775808"

fun sign_of :: "string \<Rightarrow> bool \<times> string" where
  "sign_of [] = (False, [])"
| "sign_of (c # cs) =
     (if c = CHR ''-'' then (True, cs) else if c = CHR ''+'' then (False, cs) else (False, c # cs))"

fun base_of :: "string \<Rightarrow> nat \<times> string" where
  "base_of (z # x # h # cs) =
     (if z = CHR ''0'' \<and> (x = CHR ''x'' \<or> x = CHR ''X'') \<and>
         (case digit_of h of None \<Rightarrow> False | Some v \<Rightarrow> v < 16)
      then (16, h # cs)
      else if z = CHR ''0'' then (8, z # x # h # cs)
      else (10, z # x # h # cs))"
| "base_of s = (case s of [] \<Rightarrow> (10, s) | z # _ \<Rightarrow> if z = CHR ''0'' then (8, s) else (10, s))"

definition strtol :: "string \<Rightarrow> int \<times> bool" where
  "strtol s =
     (let (negative, s1) = sign_of (dropWhile is_space s);
          (b, s2) = base_of s1;
          m = int (magnitude b (digits b s2));
          v = (if negative then - m else m)
      in if LONG_MAX < v then (LONG_MAX, True)
         else if v < LONG_MIN then (LONG_MIN, True)
         else (v, False))"

text \<open>\<open>printf("%d", v)\<close>.\<close>

fun decimal :: "nat \<Rightarrow> string" where
  "decimal n =
     (if n < 10 then [''0123456789'' ! n] else decimal (n div 10) @ [''0123456789'' ! (n mod 10)])"

definition printf_d :: "int \<Rightarrow> string" where
  "printf_d v = (if v < 0 then CHR ''-'' # decimal (nat (- v)) else decimal (nat v))"

text \<open>
  What a run of \<open>main\<close> leaves behind: the exit status, what was written to the two
  streams, and the argument \<open>ispowerful\<close> was called with, if it was called. \<open>argv\<close> is
  the list of the \<open>argc\<close> strings. \<open>None\<close> stands for a run without an outcome:
  \<open>usage(argv[0])\<close> with no \<open>argv[0]\<close>, or a call of \<open>ispowerful\<close> that does not return.
\<close>

datatype exit_status = EXIT_SUCCESS | EXIT_FAILURE

record run =
  status :: exit_status
  stdout :: string
  stderr :: string
  core_arg :: "ulong option"

definition usage :: "string \<Rightarrow> string" where
  "usage prog = ''Usage: % '' @ prog @ '' <number>''"

definition main :: "string list \<Rightarrow> run option" where
  "main argv =
     (if length argv \<noteq> 2 then
        (case argv of
           [] \<Rightarrow> None
         | prog # _ \<Rightarrow>
             Some \<lparr>status = EXIT_FAILURE, stdout = [], stderr = usage prog, core_arg = None\<rparr>)
      else
        (let (number, erange) = strtol (argv ! 1) in
         if erange then
           Some \<lparr>status = EXIT_FAILURE, stdout = [],
                 stderr = ''The number specified is too large.'', core_arg = None\<rparr>
         else if number < 0 then
           Some \<lparr>status = EXIT_FAILURE, stdout = [],
                 stderr = ''The number specified should be positive.'', core_arg = None\<rparr>
         else
           (case ispowerful (word_of_int number) of
              None \<Rightarrow> None
            | Some v \<Rightarrow>
                Some \<lparr>status = EXIT_SUCCESS, stdout = printf_d v @ [CHR 0x0A], stderr = [],
                      core_arg = Some (word_of_int number)\<rparr>)))"

section \<open>Modular exponentiation\<close>

text \<open>
  \<open>pow_mod a e n\<close> is \<open>a ^ e mod n\<close> by repeated squaring (\<open>pow_mod_correct\<close>). It is only
  used to evaluate one power modulo \<open>2 ^ 64 - 2 ^ 32 + 1\<close>, for the input on which the
  square of the divisor wraps around.
\<close>

fun pow_mod :: "nat \<Rightarrow> nat \<Rightarrow> nat \<Rightarrow> nat" where
  "pow_mod a e n =
     (if e = 0 then 1 mod n
      else if even e then (pow_mod a (e div 2) n)\<^sup>2 mod n
      else (pow_mod a (e div 2) n)\<^sup>2 * a mod n)"

declare pow_mod.simps [simp del]

section \<open>Divisibility facts\<close>

lemma is_prime_iff: "is_prime p \<longleftrightarrow> 1 < p \<and> (\<forall>m. m dvd p \<longrightarrow> m = 1 \<or> m = p)"
proof
  assume p: "is_prime p"
  show "1 < p \<and> (\<forall>m. m dvd p \<longrightarrow> m = 1 \<or> m = p)"
  proof (intro conjI allI impI)
    show "1 < p" using p by (simp add: is_prime_def)
  next
    fix m assume m: "m dvd p"
    have "1 < p" using p by (simp add: is_prime_def)
    with m have "m \<le> p" by (auto intro: dvd_imp_le)
    have "m \<noteq> 0" using m \<open>1 < p\<close> by (cases "m = 0") auto
    show "m = 1 \<or> m = p"
    proof (rule ccontr)
      assume "\<not> (m = 1 \<or> m = p)"
      with \<open>m \<le> p\<close> \<open>m \<noteq> 0\<close> have "m \<in> {2..<p}" by auto
      with p m show False by (auto simp: is_prime_def)
    qed
  qed
next
  assume "1 < p \<and> (\<forall>m. m dvd p \<longrightarrow> m = 1 \<or> m = p)"
  then show "is_prime p" by (auto simp: is_prime_def)
qed

lemma powerful_iff:
  assumes "0 < n"
  shows "powerful n \<longleftrightarrow> (\<forall>p. is_prime p \<longrightarrow> p dvd n \<longrightarrow> p * p dvd n)"
proof
  assume "powerful n"
  show "\<forall>p. is_prime p \<longrightarrow> p dvd n \<longrightarrow> p * p dvd n"
  proof (intro allI impI)
    fix p assume p: "is_prime p" "p dvd n"
    then have "p \<le> n" "2 \<le> p" using assms by (auto simp: is_prime_def intro: dvd_imp_le)
    with \<open>powerful n\<close> p show "p * p dvd n" by (auto simp: powerful_def)
  qed
next
  assume "\<forall>p. is_prime p \<longrightarrow> p dvd n \<longrightarrow> p * p dvd n"
  then show "powerful n" by (auto simp: powerful_def)
qed

lemma nofactorD: "nofactor d r \<Longrightarrow> 2 \<le> k \<Longrightarrow> k < d \<Longrightarrow> \<not> k dvd r"
  by (auto simp: nofactor_def)

lemma nofactor_dvd: "nofactor d r \<Longrightarrow> r' dvd r \<Longrightarrow> nofactor d r'"
  by (auto simp: nofactor_def dest: dvd_trans)

lemma nofactor_mono: "nofactor d r \<Longrightarrow> d' \<le> d \<Longrightarrow> nofactor d' r"
  by (auto simp: nofactor_def)

lemma nofactor_Suc: "nofactor d r \<Longrightarrow> \<not> d dvd r \<Longrightarrow> nofactor (Suc d) r"
  by (auto simp: nofactor_def less_Suc_eq)

lemma nofactor_skip:
  assumes "nofactor d r" "2 \<le> k" "k < d" "k dvd d"
  shows "nofactor (Suc d) r"
proof (rule nofactor_Suc [OF assms(1)])
  show "\<not> d dvd r"
    using assms by (auto simp: nofactor_def dest: dvd_trans)
qed

lemma nofactor_is_prime:
  assumes "nofactor d r" "d dvd r" "2 \<le> d"
  shows "is_prime d"
  unfolding is_prime_def
proof (intro conjI ballI)
  show "1 < d" using assms by simp
next
  fix k assume k: "k \<in> {2..<d}"
  show "\<not> k dvd d"
  proof
    assume "k dvd d"
    then have "k dvd r" using assms(2) by (rule dvd_trans)
    with assms(1) k show False by (auto simp: nofactor_def)
  qed
qed

lemma nofactor_small_is_prime:
  assumes nf: "nofactor d r" and lt: "r < d * d" and r: "2 \<le> r"
  shows "is_prime r"
  unfolding is_prime_def
proof (intro conjI ballI)
  show "1 < r" using r by simp
next
  fix k assume k: "k \<in> {2..<r}"
  show "\<not> k dvd r"
  proof
    assume "k dvd r"
    then obtain m where m: "r = k * m" by (auto simp: dvd_def)
    have "m dvd r" using m by simp
    have "2 \<le> m"
    proof (rule ccontr)
      assume "\<not> 2 \<le> m"
      then have "m = 0 \<or> m = 1" by auto
      with m k r show False by auto
    qed
    have "d \<le> k" using nf \<open>k dvd r\<close> k by (auto simp: nofactor_def not_less [symmetric])
    moreover have "d \<le> m" using nf \<open>m dvd r\<close> \<open>2 \<le> m\<close> by (auto simp: nofactor_def not_less [symmetric])
    ultimately have "d * d \<le> k * m" by (rule mult_le_mono)
    with m lt show False by simp
  qed
qed

lemma is_prime_coprime:
  assumes "is_prime p" "\<not> p dvd a"
  shows "coprime p a"
proof -
  have "gcd p a dvd p" by simp
  then have "gcd p a = 1 \<or> gcd p a = p" using assms(1) by (auto simp: is_prime_iff)
  moreover have "gcd p a \<noteq> p"
  proof
    assume "gcd p a = p"
    then have "p dvd a" by (metis gcd_dvd2)
    with assms(2) show False by simp
  qed
  ultimately show ?thesis by (simp add: coprime_iff_gcd_eq_1)
qed

lemma is_prime_dvd_mult:
  assumes "is_prime p" "p dvd a * b"
  shows "p dvd a \<or> p dvd b"
proof (cases "p dvd a")
  case False
  then have "coprime p a" using assms(1) by (rule is_prime_coprime [rotated])
  then show ?thesis using assms(2) by (simp add: coprime_dvd_mult_right_iff)
qed simp

lemma is_prime_dvd_power:
  assumes "is_prime p" "p dvd a ^ k"
  shows "p dvd a"
  using assms(2)
proof (induction k)
  case 0
  then show ?case using assms(1) by (simp add: is_prime_def)
next
  case (Suc k)
  then show ?case using is_prime_dvd_mult [OF assms(1), of a "a ^ k"] by auto
qed

lemma is_prime_dvd_is_prime:
  assumes "is_prime p" "is_prime q" "p dvd q"
  shows "p = q"
  using assms by (auto simp: is_prime_iff)

lemma not_powerful_single:
  assumes p: "is_prime p" and nd: "\<not> p dvd m" and m: "0 < m"
  shows "\<not> powerful (m * p)"
proof
  assume pw: "powerful (m * p)"
  have p0: "0 < p" using p by (simp add: is_prime_def)
  then have "0 < m * p" using m by simp
  from powerful_iff [OF this] pw p have "p * p dvd m * p" by simp
  then have "p dvd m" using p0 by simp
  with nd show False by simp
qed

lemma powerful_strip:
  assumes p: "is_prime p" and nd: "\<not> p dvd m" and m: "0 < m" and k: "2 \<le> k"
  shows "powerful (m * p ^ k) = powerful m"
proof -
  have p0: "0 < p" using p by (simp add: is_prime_def)
  have pos: "0 < m * p ^ k" using m p0 by simp
  have pp: "p * p dvd p ^ k"
    using le_imp_power_dvd [OF k, of p] by (simp add: power2_eq_square)
  show ?thesis
  proof
    assume pw: "powerful (m * p ^ k)"
    show "powerful m"
      unfolding powerful_iff [OF m]
    proof (intro allI impI)
      fix q assume q: "is_prime q" "q dvd m"
      then have "q * q dvd m * p ^ k" using pw pos by (simp add: powerful_iff)
      moreover have "q \<noteq> p" using q nd by auto
      then have "\<not> q dvd p" using is_prime_dvd_is_prime [OF q(1) p] by auto
      then have "\<not> q dvd p ^ k" using is_prime_dvd_power [OF q(1)] by blast
      then have "coprime q (p ^ k)" using q(1) by (rule is_prime_coprime [rotated])
      then have "coprime (q * q) (p ^ k)" by simp
      ultimately show "q * q dvd m" by (simp add: coprime_dvd_mult_left_iff)
    qed
  next
    assume pw: "powerful m"
    show "powerful (m * p ^ k)"
      unfolding powerful_iff [OF pos]
    proof (intro allI impI)
      fix q assume q: "is_prime q" "q dvd m * p ^ k"
      show "q * q dvd m * p ^ k"
      proof (cases "q dvd m")
        case True
        then have "q * q dvd m" using pw q(1) m by (simp add: powerful_iff)
        then show ?thesis by simp
      next
        case False
        then have "q dvd p ^ k" using is_prime_dvd_mult [OF q] by simp
        then have "q dvd p" using is_prime_dvd_power [OF q(1)] by blast
        then have "q = p" using is_prime_dvd_is_prime [OF q(1) p] by simp
        then show ?thesis using pp by simp
      qed
    qed
  qed
qed

lemma powerful_1: "powerful (Suc 0)"
  by (simp add: powerful_def)

lemma not_powerful_prime: "is_prime p \<Longrightarrow> \<not> powerful p"
  using not_powerful_single [of p 1] by (simp add: is_prime_def)

lemma is_prime_gt_1: "is_prime p \<Longrightarrow> 1 < p"
  by (simp add: is_prime_def)

lemma exists_prime_factor: "2 \<le> k \<Longrightarrow> \<exists>q. is_prime q \<and> q dvd k"
proof (induction k rule: less_induct)
  case (less k)
  show ?case
  proof (cases "is_prime k")
    case True
    then show ?thesis by auto
  next
    case False
    then obtain m where m: "m \<in> {2..<k}" "m dvd k" using less.prems by (auto simp: is_prime_def)
    then obtain q where "is_prime q" "q dvd m" using less.IH [of m] by auto
    then show ?thesis using m(2) by (auto dest: dvd_trans)
  qed
qed

text \<open>A number is powerful exactly when it is a square times a cube.\<close>

lemma prime_power_decomp:
  fixes n p :: nat
  assumes p: "2 \<le> p"
  shows "0 < n \<Longrightarrow> \<exists>m k. n = m * p ^ k \<and> \<not> p dvd m"
proof (induction n rule: less_induct)
  case (less n)
  show ?case
  proof (cases "p dvd n")
    case False
    then have "n = n * p ^ 0 \<and> \<not> p dvd n" by simp
    then show ?thesis by blast
  next
    case True
    then obtain n' where n': "n = p * n'" by (auto simp: dvd_def)
    then have "0 < n'" using less.prems by (cases n') auto
    moreover have "n' < n" using n' p \<open>0 < n'\<close> by simp
    ultimately obtain m k where "n' = m * p ^ k" "\<not> p dvd m" using less.IH by blast
    then have "n = m * p ^ Suc k \<and> \<not> p dvd m" using n' by simp
    then show ?thesis by blast
  qed
qed

lemma square_cube_powerful:
  fixes a b :: nat
  assumes "0 < a" "0 < b"
  shows "powerful (a\<^sup>2 * b ^ 3)"
proof -
  have pos: "0 < a\<^sup>2 * b ^ 3" using assms by simp
  show ?thesis
    unfolding powerful_iff [OF pos]
  proof (intro allI impI)
    fix p assume p: "is_prime p" "p dvd a\<^sup>2 * b ^ 3"
    then consider "p dvd a\<^sup>2" | "p dvd b ^ 3" using is_prime_dvd_mult by blast
    then show "p * p dvd a\<^sup>2 * b ^ 3"
    proof cases
      case 1
      then have pa: "p dvd a" by (rule is_prime_dvd_power [OF p(1)])
      have "p * p dvd a * a" using pa pa by (rule mult_dvd_mono)
      then show ?thesis by (simp add: power2_eq_square)
    next
      case 2
      then have pb: "p dvd b" by (rule is_prime_dvd_power [OF p(1)])
      have "p * p dvd b * b" using pb pb by (rule mult_dvd_mono)
      then have "p * p dvd b ^ 3" by (simp add: power3_eq_cube)
      then show ?thesis by simp
    qed
  qed
qed

lemma powerful_square_cube:
  fixes n :: nat
  shows "0 < n \<Longrightarrow> powerful n \<Longrightarrow> \<exists>a b. 0 < a \<and> 0 < b \<and> n = a\<^sup>2 * b ^ 3"
proof (induction n rule: less_induct)
  case (less n)
  show ?case
  proof (cases "n = 1")
    case True
    then have "0 < (1::nat) \<and> 0 < (1::nat) \<and> n = 1\<^sup>2 * 1 ^ 3" by simp
    then show ?thesis by blast
  next
    case False
    then have "2 \<le> n" using less.prems(1) by simp
    then obtain p where p: "is_prime p" "p dvd n" using exists_prime_factor by blast
    have p2: "2 \<le> p" using is_prime_gt_1 [OF p(1)] by simp
    from prime_power_decomp [OF p2 less.prems(1)]
    obtain m k where mk: "n = m * p ^ k" "\<not> p dvd m" by blast
    have m0: "0 < m" using mk(1) less.prems(1) by (cases m) auto
    have "k \<noteq> 0" using mk p(2) by (cases k) auto
    moreover have "k \<noteq> 1" using not_powerful_single [OF p(1) mk(2) m0] less.prems(2) mk(1) by auto
    ultimately have k2: "2 \<le> k" by simp
    have pm: "powerful m" using powerful_strip [OF p(1) mk(2) m0 k2] less.prems(2) mk(1) by simp
    have "1 < p ^ k" by (rule one_less_power) (use p2 k2 in auto)
    then have "m < n" using mk(1) m0 by simp
    then obtain a b where ab: "0 < a" "0 < b" "m = a\<^sup>2 * b ^ 3" using less.IH [OF _ m0 pm] by blast
    show ?thesis
    proof (cases "even k")
      case True
      then obtain i where i: "k = 2 * i" by (auto elim: evenE)
      have "n = (a * p ^ i)\<^sup>2 * b ^ 3"
        unfolding mk(1) ab(3) i by (simp add: power_mult_distrib power_mult [symmetric] mult.commute)
      moreover have "0 < a * p ^ i" using ab(1) p2 by simp
      ultimately show ?thesis using ab(2) by blast
    next
      case False
      then obtain j where j: "k = 2 * j + 1" by (auto elim: oddE)
      then have "j \<noteq> 0" using k2 by auto
      then obtain i where i: "k = 2 * i + 3" using j by (cases j) auto
      have "n = (a * p ^ i)\<^sup>2 * (b * p) ^ 3"
        unfolding mk(1) ab(3) i
        by (simp add: power_mult_distrib power_add power_mult [symmetric] mult.commute)
      moreover have "0 < a * p ^ i" "0 < b * p" using ab(1,2) p2 by simp_all
      ultimately show ?thesis by blast
    qed
  qed
qed

lemma powerful_iff_square_cube:
  fixes n :: nat
  assumes "0 < n"
  shows "powerful n = (\<exists>a b. 0 < a \<and> 0 < b \<and> n = a\<^sup>2 * b ^ 3)"
  using powerful_square_cube [OF assms] square_cube_powerful by auto

section \<open>The stripping loops\<close>

lemma unat_ge2_nonzero: "2 \<le> unat (d::ulong) \<Longrightarrow> d \<noteq> 0"
  by auto

lemma strip_decomp:
  fixes r d e :: ulong
  assumes D: "2 \<le> unat d"
  shows "0 < unat r \<Longrightarrow>
     \<exists>r' k. strip r d e = Some (r', e + of_nat k) \<and> unat r = unat r' * unat d ^ k \<and>
            \<not> unat d dvd unat r' \<and> 0 < unat r'"
proof (induction "unat r" arbitrary: r e rule: less_induct)
  case less
  have d0: "d \<noteq> 0" using D by auto
  show ?case
  proof (cases "r mod d = 0")
    case True
    then have dv: "unat d dvd unat r"
      by (metis unat_mod unat_0 mod_eq_0_iff_dvd)
    have q: "unat (r div d) = unat r div unat d" by (rule unat_div)
    have qpos: "0 < unat (r div d)"
      using dv less.prems D unfolding q by (auto simp: dvd_def)
    have qlt: "unat (r div d) < unat r"
      unfolding q using less.prems D by (intro div_less_dividend) auto
    from less.hyps [OF qlt qpos, of "e + 1"]
    obtain r' k where IH: "strip (r div d) d (e + 1) = Some (r', e + 1 + of_nat k)"
      "unat (r div d) = unat r' * unat d ^ k" "\<not> unat d dvd unat r'" "0 < unat r'"
      by blast
    have "strip r d e = Some (r', e + of_nat (Suc k))"
      using IH(1) True d0 by (subst strip.simps) (simp add: add.assoc)
    moreover have "unat r = unat r' * unat d ^ Suc k"
    proof -
      have "unat r = unat d * (unat r div unat d)" using dv by simp
      then show ?thesis using IH(2) unfolding q by (simp add: mult_ac)
    qed
    ultimately show ?thesis using IH(3,4) by blast
  next
    case False
    then have "\<not> unat d dvd unat r"
      by (metis unat_mod unat_0 mod_eq_0_iff_dvd unsigned_word_eqI)
    moreover have "strip r d e = Some (r, e + of_nat 0)"
      using False d0 by (subst strip.simps) simp
    ultimately show ?thesis using less.prems by (intro exI [of _ r] exI [of _ 0]) simp
  qed
qed

lemma pow_bound_64:
  fixes r r' d k :: nat
  assumes "r = r' * d ^ k" "2 \<le> d" "0 < r'" "r < 2 ^ 64"
  shows "k < (64::nat)"
proof (rule ccontr)
  assume "\<not> k < 64"
  then have "(2::nat) ^ 64 \<le> 2 ^ k" by (intro power_increasing) auto
  also have "\<dots> \<le> d ^ k" using assms(2) by (intro power_mono) auto
  also have "\<dots> \<le> r' * d ^ k" using assms(3) by simp
  finally show False using assms(1,4) by simp
qed

lemma of_nat_eq_1_iff:
  assumes "k < 64"
  shows "(of_nat k :: ulong) = 1 \<longleftrightarrow> k = 1"
proof
  assume "(of_nat k :: ulong) = 1"
  then have "unat (of_nat k :: ulong) = 1" by simp
  moreover have "unat (of_nat k :: ulong) = k"
    using assms by (simp add: unat_of_nat)
  ultimately show "k = 1" by simp
qed simp

lemma of_nat_eq_0_iff:
  assumes "k < 64"
  shows "(of_nat k :: ulong) = 0 \<longleftrightarrow> k = 0"
proof
  assume "(of_nat k :: ulong) = 0"
  then have "unat (of_nat k :: ulong) = 0" by simp
  moreover have "unat (of_nat k :: ulong) = k"
    using assms by (simp add: unat_of_nat)
  ultimately show "k = 0" by simp
qed simp

lemma unat_lt_2p64: "unat (r::ulong) < 2 ^ 64"
  using unsigned_less [of r, where 'a = nat] by simp

lemma strip_step:
  fixes r d :: ulong
  assumes R: "0 < unat r" and D: "2 \<le> unat d" and nf: "nofactor (unat d) (unat r)"
  shows "\<exists>r' e'. strip r d 0 = Some (r', e') \<and> 0 < unat r' \<and> unat r' dvd unat r \<and>
           nofactor (Suc (unat d)) (unat r') \<and>
           (e' = 1 \<longrightarrow> \<not> powerful (unat r)) \<and>
           (e' \<noteq> 1 \<longrightarrow> powerful (unat r') = powerful (unat r)) \<and>
           (\<not> unat d dvd unat r \<longrightarrow> r' = r \<and> e' = 0) \<and>
           (is_prime (unat r) \<and> unat d < unat r \<longrightarrow> r' = r \<and> e' = 0) \<and>
           (unat d = unat r \<longrightarrow> e' = 1)"
proof -
  from strip_decomp [OF D R, of 0]
  obtain r' k where s: "strip r d 0 = Some (r', of_nat k)"
    and eq: "unat r = unat r' * unat d ^ k" and nd: "\<not> unat d dvd unat r'" and pos: "0 < unat r'"
    by auto
  have k64: "k < 64" using pow_bound_64 [OF eq D pos unat_lt_2p64] .
  have dv: "unat r' dvd unat r" using eq by simp
  have nf': "nofactor (Suc (unat d)) (unat r')"
    using nofactor_Suc [OF nofactor_dvd [OF nf dv] nd] .
  have k0: "k = 0 \<Longrightarrow> r' = r"
  proof -
    assume "k = 0"
    then have "unat r' = unat r" using eq by simp
    then show "r' = r" by (rule unsigned_word_eqI)
  qed
  have notdv: "\<not> unat d dvd unat r \<Longrightarrow> k = 0"
    using eq by (cases k) auto
  have pr: "0 < k \<Longrightarrow> is_prime (unat d)"
  proof -
    assume "0 < k"
    then have "unat d dvd unat r" using eq by (cases k) auto
    then show ?thesis using nofactor_is_prime [OF nf _ D] by simp
  qed
  have c1: "k = 1 \<Longrightarrow> \<not> powerful (unat r)"
    using not_powerful_single [OF pr nd pos] eq by simp
  have c2: "k \<noteq> 1 \<Longrightarrow> powerful (unat r') = powerful (unat r)"
  proof (cases "k = 0")
    case True
    then show ?thesis using eq by simp
  next
    case False
    assume "k \<noteq> 1"
    with False have "2 \<le> k" "0 < k" by auto
    then show ?thesis using powerful_strip [OF pr nd pos, of k] eq by simp
  qed
  have c3: "is_prime (unat r) \<Longrightarrow> unat d < unat r \<Longrightarrow> k = 0"
  proof (rule notdv)
    assume "is_prime (unat r)" "unat d < unat r"
    then show "\<not> unat d dvd unat r" using D by (auto simp: is_prime_iff)
  qed
  have c4: "unat d = unat r \<Longrightarrow> k = 1"
  proof -
    assume e: "unat d = unat r"
    show "k = 1"
    proof (cases k)
      case 0
      then show ?thesis using eq nd e by simp
    next
      case (Suc j)
      have "j = 0"
      proof (rule ccontr)
        assume "j \<noteq> 0"
        then have "unat d * unat d dvd unat d ^ k" using Suc
          by (metis le_imp_power_dvd power2_eq_square Suc_le_mono One_nat_def Suc_1 Suc_leI neq0_conv)
        then have "unat d * unat d dvd unat r" using eq by simp
        then have "unat d * unat d \<le> unat d" using e R by (auto intro: dvd_imp_le)
        then show False using D by simp
      qed
      then show ?thesis using Suc by simp
    qed
  qed
  show ?thesis
    using s pos dv nf' c1 c2 k0 notdv c3 c4
    by (auto simp: of_nat_eq_1_iff [OF k64] of_nat_eq_0_iff [OF k64])
qed

lemma strip2_zero: "strip2 0 e = None"
proof (rule ccontr)
  assume "strip2 0 e \<noteq> None"
  then obtain y where "strip2 0 e = Some y" by auto
  moreover have "n \<noteq> 0" if "strip2 n e = Some y" for n e y
    by (rule strip2.raw_induct [where P = "\<lambda>n e y. n \<noteq> 0", OF _ that])
      (fastforce split: if_splits)
  ultimately show False by blast
qed

lemma strip_zero: "strip 0 d e = None"
proof (rule ccontr)
  assume "strip 0 d e \<noteq> None"
  then obtain y where "strip 0 d e = Some y" by auto
  moreover have "n \<noteq> 0" if "strip n d e = Some y" for n d e y
    by (rule strip.raw_induct [where P = "\<lambda>n d e y. n \<noteq> 0", OF _ that])
      (fastforce split: if_splits)
  ultimately show False by blast
qed

lemma and_1_eq_0_iff: "(n AND 1 = 0) = (n mod 2 = 0)" for n :: ulong
  by (simp add: and_one_eq mod_2_eq_odd)

lemma drop_bit_1_eq: "drop_bit (Suc 0) n = n div 2" for n :: ulong
  by (simp add: drop_bit_eq_div)

lemma strip2_strip: "strip2 number exponent = strip number 2 exponent"
proof (cases "number = 0")
  case True
  then show ?thesis by (simp add: strip2_zero strip_zero)
next
  case False
  then show ?thesis
  proof (induction "unat number" arbitrary: number exponent rule: less_induct)
    case less
    show ?case
    proof (cases "number mod 2 = 0")
      case True
      have u: "unat (number div 2) = unat number div 2" by (simp add: unat_div)
      have "unat (number mod 2) = unat number mod 2" by (simp add: unat_mod)
      then have "unat number mod 2 = 0" using True by simp
      moreover have "0 < unat number" using less.prems by (simp add: unat_gt_0)
      ultimately have lt: "unat (number div 2) < unat number" and ne: "unat (number div 2) \<noteq> 0"
        unfolding u by auto
      from ne have ne': "number div 2 \<noteq> 0" by auto
      have "strip2 number exponent = strip2 (number div 2) (exponent + 1)"
        using True by (subst strip2.simps) (simp add: and_1_eq_0_iff drop_bit_1_eq)
      also have "\<dots> = strip (number div 2) 2 (exponent + 1)"
        using less.hyps [OF lt ne'] .
      also have "\<dots> = strip number 2 exponent"
        using True by (subst (2) strip.simps) simp
      finally show ?thesis .
    next
      case False
      have "strip2 number exponent = Some (number, exponent)"
        using False by (subst strip2.simps) (simp add: and_1_eq_0_iff)
      moreover have "strip number 2 exponent = Some (number, exponent)"
        using False by (subst strip.simps) simp
      ultimately show ?thesis by simp
    qed
  qed
qed

section \<open>The divisor loop\<close>

lemma wheel_from_step:
  assumes "d mod 6 = 5" "wheel_from (d + 6) xs"
  shows "wheel_from d (d # (d + 2) # xs)"
proof -
  have a: "((d + 2) mod 6 = 5) = False" using assms(1) by presburger
  have b: "d + 2 + 4 = d + 6" by simp
  show ?thesis
    by (simp only: wheel_from.simps assms a b if_True if_False simp_thms)
qed

lemma is_prime_nofactor: "is_prime r \<Longrightarrow> d \<le> r \<Longrightarrow> nofactor d r"
  by (auto simp: is_prime_def nofactor_def)

lemma is_prime_odd: "is_prime r \<Longrightarrow> 3 < r \<Longrightarrow> \<not> 2 dvd r \<and> \<not> 3 dvd r"
  by (auto simp: is_prime_def)

lemma prime_next2:
  assumes "is_prime r" "d < r" "d mod 6 = 5"
  shows "d + 2 \<le> r"
proof -
  have "\<not> 2 dvd r" using is_prime_odd [OF assms(1)] assms(2,3) by auto
  then show ?thesis using assms(2,3) by presburger
qed

lemma prime_next6:
  assumes "is_prime r" "d + 2 < r" "d mod 6 = 5"
  shows "d + 6 \<le> r"
proof -
  have "\<not> 2 dvd r \<and> \<not> 3 dvd r" using is_prime_odd [OF assms(1)] assms(2,3) by auto
  then show ?thesis using assms(2,3) by presburger
qed

lemma unat_plus2: "unat d + 2 < 2 ^ 64 \<Longrightarrow> unat (d + 2) = unat d + 2" for d :: ulong
  using unat_add_lem [of d 2] by simp

lemma unat_plus6: "unat d + 6 < 2 ^ 64 \<Longrightarrow> unat (d + 2 + 4) = unat d + 6" for d :: ulong
  using unat_add_lem [of d 6] by (simp add: add.assoc)

lemma wheel_log_prime:
  fixes r d :: ulong
  assumes pr: "is_prime (unat r)" and M: "lim * lim \<le> M"
  shows "unat d \<le> unat r \<Longrightarrow> unat d mod 6 = 5 \<Longrightarrow>
    \<exists>t. wheel_log r d = Some (0, t) \<and> list_all (good M) t \<and> wheel_from (unat d) (tried t)"
proof (induction "unat r - unat d" arbitrary: d rule: less_induct)
  case less
  have R: "0 < unat r" "1 < unat r" using pr by (auto simp: is_prime_def)
  have r1: "r \<noteq> 1" using R(2) by auto
  have D: "5 \<le> unat d" "2 \<le> unat d" using less.prems(2) by presburger+
  have nf: "nofactor (unat d) (unat r)" using is_prime_nofactor [OF pr less.prems(1)] .
  have gC: "good M (Cond d r)" using less.prems(2) R nf M by simp
  show ?case
  proof (cases "d * d \<le> r")
    case False
    then have "wheel_log r d = Some (0, [Cond d r])"
      using r1 by (subst wheel_log.simps) simp
    then show ?thesis using gC by simp
  next
    case True
    have gT: "good M (Try d r)" using D R nf True M by simp
    from strip_step [OF R(1) D(2) nf]
    obtain r1 e1 where s1: "strip r d 0 = Some (r1, e1)"
      and p1: "is_prime (unat r) \<and> unat d < unat r \<longrightarrow> r1 = r \<and> e1 = 0"
      and q1: "unat d = unat r \<longrightarrow> e1 = 1"
      by blast
    show ?thesis
    proof (cases "unat d = unat r")
      case True
      then have "e1 = 1" using q1 by simp
      then have "wheel_log r d = Some (0, [Cond d r, Try d r])"
        using s1 \<open>d * d \<le> r\<close> by (subst wheel_log.simps) simp
      then show ?thesis using gC gT by simp
    next
      case False
      then have lt: "unat d < unat r" using less.prems(1) by simp
      then have e1: "r1 = r" "e1 = 0" using p1 pr by auto
      have le2: "unat d + 2 \<le> unat r" using prime_next2 [OF pr lt less.prems(2)] .
      have u2: "unat (d + 2) = unat d + 2"
        using le2 unat_lt_2p64 [of r] by (intro unat_plus2) simp
      have nf2: "nofactor (unat (d + 2)) (unat r)"
        using is_prime_nofactor [OF pr] le2 u2 by simp
      have D2: "2 \<le> unat (d + 2)" "5 \<le> unat (d + 2)" using u2 D by auto
      have m2: "unat (d + 2) mod 6 = 1" using u2 less.prems(2) by presburger
      have gT2: "good M (Try (d + 2) r)" using D2 R nf2 m2 M by simp
      from strip_step [OF R(1) D2(1) nf2]
      obtain r2 e2 where s2: "strip r (d + 2) 0 = Some (r2, e2)"
        and p2: "is_prime (unat r) \<and> unat (d + 2) < unat r \<longrightarrow> r2 = r \<and> e2 = 0"
        and q2: "unat (d + 2) = unat r \<longrightarrow> e2 = 1"
        by blast
      show ?thesis
      proof (cases "unat (d + 2) = unat r")
        case True
        then have "e2 = 1" using q2 by simp
        then have "wheel_log r d = Some (0, [Cond d r, Try d r, Try (d + 2) r])"
          using s1 s2 e1 \<open>d * d \<le> r\<close> by (subst wheel_log.simps) simp
        then show ?thesis using gC gT gT2 u2 less.prems(2) by simp
      next
        case False
        then have lt2: "unat d + 2 < unat r" using le2 u2 by simp
        then have e2: "r2 = r" "e2 = 0" using p2 pr u2 by auto
        have le6: "unat d + 6 \<le> unat r" using prime_next6 [OF pr lt2 less.prems(2)] .
        have u6: "unat (d + 2 + 4) = unat d + 6"
          using le6 unat_lt_2p64 [of r] by (intro unat_plus6) simp
        have "unat r - unat (d + 2 + 4) < unat r - unat d" using u6 le6 by simp
        moreover have "unat (d + 2 + 4) \<le> unat r" using u6 le6 by simp
        moreover have "unat (d + 2 + 4) mod 6 = 5" using u6 less.prems(2) by presburger
        ultimately obtain t where t: "wheel_log r (d + 2 + 4) = Some (0, t)"
          "list_all (good M) t" "wheel_from (unat (d + 2 + 4)) (tried t)"
          using less.hyps by blast
        have "wheel_log r d = Some (0, Cond d r # Try d r # Try (d + 2) r # t)"
          using s1 s2 e1 e2 t(1) \<open>d * d \<le> r\<close> by (subst wheel_log.simps) simp
        moreover have "list_all (good M) (Cond d r # Try d r # Try (d + 2) r # t)"
          using gC gT gT2 t(2) by simp
        moreover have "tried (Cond d r # Try d r # Try (d + 2) r # t) =
            unat d # (unat d + 2) # tried t"
          by (simp only: tried.simps u2)
        then have "wheel_from (unat d) (tried (Cond d r # Try d r # Try (d + 2) r # t))"
          using wheel_from_step [OF less.prems(2), of "tried t"] t(3) u6 by (simp only:)
        ultimately show ?thesis by blast
      qed
    qed
  qed
qed

lemma lim_facts:
  "lim mod 6 = 5" "lim * lim < 2 ^ 64" "2 ^ 64 \<le> (lim + 6) * (lim + 6)" "lim + 6 < 2 ^ 64"
  by (simp_all add: lim_def)

lemma unat_square:
  fixes d :: ulong
  assumes "unat d \<le> lim"
  shows "unat (d * d) = unat d * unat d"
proof -
  have "unat d * unat d \<le> lim * lim" using assms by (intro mult_le_mono)
  then have "unat d * unat d < 2 ^ LENGTH(64)" using lim_facts(2) by simp
  then show ?thesis by (simp only: unat_mult_lem [THEN iffD1])
qed

lemma mod6_gap:
  fixes a b :: nat
  assumes "a mod 6 = 5" "b mod 6 = 5" "a < b"
  shows "a + 6 \<le> b"
proof -
  define x y where "x = a div 6" and "y = b div 6"
  have a: "a = 6 * x + 5" and b: "b = 6 * y + 5"
    using assms(1,2) mult_div_mod_eq [of 6 a] mult_div_mod_eq [of 6 b]
    by (simp_all add: x_def y_def)
  have "x < y" using assms(3) unfolding a b by simp
  then have "6 * (x + 1) \<le> 6 * y" by simp
  then show ?thesis unfolding a b by simp
qed

lemma nofactor_ge:
  assumes "nofactor d r" "2 \<le> r"
  shows "d \<le> r"
proof (rule ccontr)
  assume "\<not> d \<le> r"
  then have "r < d" by simp
  from nofactorD [OF assms(1) assms(2) this] show False by simp
qed

lemma nofactor_plus2:
  assumes "nofactor (Suc d) r" "\<not> 2 dvd d" "3 \<le> d"
  shows "nofactor (d + 2) r"
proof -
  have "nofactor (Suc (Suc d)) r"
    using assms by (intro nofactor_skip [OF assms(1), of 2]) auto
  then show ?thesis by simp
qed

lemma nofactor_plus4:
  assumes "nofactor (Suc d) r" "d mod 6 = 1" "7 \<le> d"
  shows "nofactor (d + 4) r"
proof -
  have a: "nofactor (Suc (Suc d)) r"
    using assms by (intro nofactor_skip [OF assms(1), of 2]) presburger+
  have b: "nofactor (Suc (Suc (Suc d))) r"
    using assms by (intro nofactor_skip [OF a, of 3]) presburger+
  have "nofactor (Suc (Suc (Suc (Suc d)))) r"
    using assms by (intro nofactor_skip [OF b, of 2]) presburger+
  then show ?thesis by (simp add: numeral_eq_Suc)
qed

lemma classify_small:
  fixes r :: ulong
  assumes R: "0 < unat r" and nf: "nofactor d (unat r)" and lt: "unat r < d * d"
  shows "(if r = 1 then 1 else 0) = (if powerful (unat r) then 1 else (0::int))"
proof (cases "r = 1")
  case True
  then show ?thesis by (simp add: powerful_1)
next
  case False
  then have "unat r \<noteq> 1" by (metis unat_1 unsigned_word_eqI)
  then have "2 \<le> unat r" using R by simp
  then have "is_prime (unat r)" using nofactor_small_is_prime [OF nf lt] by simp
  then show ?thesis using False not_powerful_prime by simp
qed

lemma wheel_log_correct:
  fixes r d :: ulong
  shows "0 < unat r \<Longrightarrow> unat d mod 6 = 5 \<Longrightarrow> unat d \<le> lim + 6 \<Longrightarrow>
    nofactor (unat d) (unat r) \<Longrightarrow> unat r \<le> M \<Longrightarrow> unat d \<le> lim \<or> lim * lim \<le> M \<Longrightarrow>
    \<exists>t. wheel_log r d = Some (if powerful (unat r) then 1 else 0, t) \<and>
        list_all (good M) t \<and> wheel_from (unat d) (tried t)"
proof (induction "lim + 6 - unat d" arbitrary: r d rule: less_induct)
  case less
  note R = less.prems(1) and m6 = less.prems(2) and nf = less.prems(4)
  have D: "5 \<le> unat d" "2 \<le> unat d" using m6 by presburger+
  have gC: "good M (Cond d r)" using less.prems by simp
  show ?case
  proof (cases "unat d \<le> lim")
    case False
    then have "lim + 6 \<le> unat d" using mod6_gap [OF lim_facts(1) m6] by simp
    then have dval: "unat d = lim + 6" using less.prems(3) by simp
    have M: "lim * lim \<le> M" using False less.prems(6) by simp
    have big: "unat r < unat d * unat d"
      using unat_lt_2p64 [of r] lim_facts(3) dval by simp
    show ?thesis
    proof (cases "unat r = 1")
      case True
      then have r1: "r = 1" by (metis unat_1 unsigned_word_eqI)
      have "unat d = unat (4294967297 :: ulong)" by (simp add: dval lim_def)
      then have "d = 4294967297" by (rule unsigned_word_eqI)
      then have "\<not> d * d \<le> r" using r1 by (simp add: word_le_nat_alt)
      then have "wheel_log r d = Some (1, [Cond d r])"
        using r1 by (subst wheel_log.simps) simp
      then show ?thesis using gC r1 by (simp add: powerful_1)
    next
      case False
      then have "2 \<le> unat r" using R by simp
      then have pr: "is_prime (unat r)" using nofactor_small_is_prime [OF nf big] by simp
      have "unat d \<le> unat r" using nofactor_ge [OF nf \<open>2 \<le> unat r\<close>] .
      from wheel_log_prime [OF pr M this m6] show ?thesis
        using not_powerful_prime [OF pr] by simp
    qed
  next
    case True
    have sq: "unat (d * d) = unat d * unat d" using unat_square [OF True] .
    show ?thesis
    proof (cases "d * d \<le> r")
      case False
      then have lt: "unat r < unat d * unat d" by (simp add: word_le_nat_alt sq)
      have "wheel_log r d = Some (if r = 1 then 1 else 0, [Cond d r])"
        using False by (subst wheel_log.simps) simp
      then show ?thesis using gC classify_small [OF R nf lt] by simp
    next
      case c: True
      then have le: "unat d * unat d \<le> unat r" by (simp add: word_le_nat_alt sq)
      have dl: "unat d \<le> lim + 2" using True by simp
      have gT: "good M (Try d r)" using D R nf c dl by simp
      from strip_step [OF R D(2) nf]
      obtain r1 e1 where s1: "strip r d 0 = Some (r1, e1)"
        and R1: "0 < unat r1" and dv1: "unat r1 dvd unat r"
        and nf1: "nofactor (Suc (unat d)) (unat r1)"
        and a1: "e1 = 1 \<longrightarrow> \<not> powerful (unat r)"
        and b1: "e1 \<noteq> 1 \<longrightarrow> powerful (unat r1) = powerful (unat r)"
        by blast
      show ?thesis
      proof (cases "e1 = 1")
        case True
        then have "wheel_log r d = Some (0, [Cond d r, Try d r])"
          using s1 c by (subst wheel_log.simps) simp
        then show ?thesis using gC gT a1 True by simp
      next
        case e1: False
        have u2: "unat (d + 2) = unat d + 2"
          using True lim_facts(4) by (intro unat_plus2) simp
        have "\<not> 2 dvd unat d" using m6 by presburger
        then have nf2: "nofactor (unat (d + 2)) (unat r1)"
          using nofactor_plus2 [OF nf1] D u2 by simp
        have D2: "2 \<le> unat (d + 2)" "5 \<le> unat (d + 2)" using u2 D by auto
        have m2: "unat (d + 2) mod 6 = 1" using u2 m6 by presburger
        have dl2: "unat (d + 2) \<le> lim + 2" using True u2 by simp
        have gT2: "good M (Try (d + 2) r1)" using D2 R1 nf2 m2 dl2 by simp
        from strip_step [OF R1 D2(1) nf2]
        obtain r2 e2 where s2: "strip r1 (d + 2) 0 = Some (r2, e2)"
          and R2: "0 < unat r2" and dv2: "unat r2 dvd unat r1"
          and nf2': "nofactor (Suc (unat (d + 2))) (unat r2)"
          and a2: "e2 = 1 \<longrightarrow> \<not> powerful (unat r1)"
          and b2: "e2 \<noteq> 1 \<longrightarrow> powerful (unat r2) = powerful (unat r1)"
          by blast
        show ?thesis
        proof (cases "e2 = 1")
          case True
          then have "wheel_log r d = Some (0, [Cond d r, Try d r, Try (d + 2) r1])"
            using s1 s2 c e1 by (subst wheel_log.simps) simp
          moreover have "\<not> powerful (unat r)" using a2 b1 e1 True by simp
          moreover have "wheel_from (unat d) (tried [Cond d r, Try d r, Try (d + 2) r1])"
            using m6 u2 by simp
          ultimately show ?thesis using gC gT gT2 by simp
        next
          case e2: False
          have u6: "unat (d + 2 + 4) = unat d + 6"
            using True lim_facts(4) by (intro unat_plus6) simp
          have "7 \<le> unat (d + 2)" using u2 D by simp
          from nofactor_plus4 [OF nf2' m2 this]
          have "nofactor (unat (d + 2) + 4) (unat r2)" .
          moreover have "unat (d + 2) + 4 = unat (d + 2 + 4)" using u2 u6 by simp
          ultimately have nf6: "nofactor (unat (d + 2 + 4)) (unat r2)" by (simp only:)
          have "unat r2 \<le> unat r1" using dv2 R1 by (intro dvd_imp_le) auto
          moreover have "unat r1 \<le> unat r" using dv1 R by (intro dvd_imp_le) auto
          ultimately have RM: "unat r2 \<le> M" using less.prems(5) by simp
          have i1: "lim + 6 - unat (d + 2 + 4) < lim + 6 - unat d" using u6 True by simp
          have i2: "unat (d + 2 + 4) mod 6 = 5" using u6 m6 by presburger
          have i3: "unat (d + 2 + 4) \<le> lim + 6" using u6 True by simp
          have i4: "unat (d + 2 + 4) \<le> lim \<or> lim * lim \<le> M"
          proof (cases "unat d = lim")
            case True
            then have "lim * lim \<le> unat r" using le by simp
            then show ?thesis using less.prems(5) by simp
          next
            case False
            then have "unat d + 6 \<le> lim"
              using \<open>unat d \<le> lim\<close> mod6_gap [OF m6 lim_facts(1)] by simp
            then show ?thesis using u6 by simp
          qed
          from less.hyps [OF i1 R2 i2 i3 nf6 RM i4]
          obtain t where t: "wheel_log r2 (d + 2 + 4) = Some (if powerful (unat r2) then 1 else 0, t)"
            "list_all (good M) t" "wheel_from (unat (d + 2 + 4)) (tried t)"
            by blast
          have pw: "powerful (unat r2) = powerful (unat r)" using b1 b2 e1 e2 by simp
          have "wheel_log r d = Some (if powerful (unat r) then 1 else 0,
                  Cond d r # Try d r # Try (d + 2) r1 # t)"
            using s1 s2 e1 e2 t(1) c pw by (subst wheel_log.simps) simp
          moreover have "list_all (good M) (Cond d r # Try d r # Try (d + 2) r1 # t)"
            using gC gT gT2 t(2) by simp
          moreover have "tried (Cond d r # Try d r # Try (d + 2) r1 # t) =
              unat d # (unat d + 2) # tried t"
            by (simp only: tried.simps u2)
          then have "wheel_from (unat d) (tried (Cond d r # Try d r # Try (d + 2) r1 # t))"
            using wheel_from_step [OF m6, of "tried t"] t(3) u6 by (simp only:)
          ultimately show ?thesis by blast
        qed
      qed
    qed
  qed
qed

section \<open>The whole function\<close>

lemma ispowerful_log_correct:
  fixes n :: ulong
  assumes "n \<noteq> 0"
  shows "\<exists>t. ispowerful_log n = Some (if powerful (unat n) then 1 else 0, t) \<and>
           list_all (good (unat n)) t \<and> wheel_from 5 (tried t)"
proof -
  have N: "0 < unat n" using assms by (simp add: unat_gt_0)
  have nf0: "nofactor (unat (2::ulong)) (unat n)" by (simp add: nofactor_def)
  from strip_step [OF N _ nf0]
  obtain r1 e1 where s1: "strip n 2 0 = Some (r1, e1)"
    and R1: "0 < unat r1" and dv1: "unat r1 dvd unat n"
    and nf1: "nofactor (Suc (unat (2::ulong))) (unat r1)"
    and a1: "e1 = 1 \<longrightarrow> \<not> powerful (unat n)"
    and b1: "e1 \<noteq> 1 \<longrightarrow> powerful (unat r1) = powerful (unat n)"
    by auto
  have s1': "strip2 n 0 = Some (r1, e1)" using s1 by (simp add: strip2_strip)
  show ?thesis
  proof (cases "e1 = 1")
    case True
    then have "ispowerful_log n = Some (0, [])"
      using assms s1' by (simp add: ispowerful_log_def)
    then show ?thesis using a1 True by simp
  next
    case e1: False
    have nf3: "nofactor (unat (3::ulong)) (unat r1)" using nf1 by simp
    from strip_step [OF R1 _ nf3]
    obtain r2 e2 where s2: "strip r1 3 0 = Some (r2, e2)"
      and R2: "0 < unat r2" and dv2: "unat r2 dvd unat r1"
      and nf2: "nofactor (Suc (unat (3::ulong))) (unat r2)"
      and a2: "e2 = 1 \<longrightarrow> \<not> powerful (unat r1)"
      and b2: "e2 \<noteq> 1 \<longrightarrow> powerful (unat r2) = powerful (unat r1)"
      by auto
    show ?thesis
    proof (cases "e2 = 1")
      case True
      then have "ispowerful_log n = Some (0, [])"
        using assms s1' s2 e1 by (simp add: ispowerful_log_def)
      then show ?thesis using a2 b1 e1 True by simp
    next
      case e2: False
      have nf4: "nofactor 4 (unat r2)" using nf2 by simp
      have "nofactor (Suc 4) (unat r2)"
        by (rule nofactor_skip [OF nf4, of 2]) simp_all
      then have nf5: "nofactor (unat (5::ulong)) (unat r2)" by simp
      have "unat r2 \<le> unat r1" using dv2 R1 by (intro dvd_imp_le) auto
      moreover have "unat r1 \<le> unat n" using dv1 N by (intro dvd_imp_le) auto
      ultimately have le: "unat r2 \<le> unat n" by simp
      have "\<exists>t. wheel_log r2 5 = Some (if powerful (unat r2) then 1 else 0, t) \<and>
          list_all (good (unat n)) t \<and> wheel_from (unat (5::ulong)) (tried t)"
        by (rule wheel_log_correct [OF R2 _ _ nf5 le]) (simp_all add: lim_def)
      moreover have "ispowerful_log n = wheel_log r2 5"
        using assms s1' s2 e1 e2 by (simp add: ispowerful_log_def)
      moreover have "powerful (unat r2) = powerful (unat n)" using b1 b2 e1 e2 by simp
      ultimately show ?thesis by simp
    qed
  qed
qed

lemma wheel_log_imp_wheel:
  assumes "wheel_log r d = Some y"
  shows "wheel r d = Some (fst y)"
proof (rule wheel_log.raw_induct [where P = "\<lambda>r d y. wheel r d = Some (fst y)", OF _ assms])
  fix f :: "ulong \<Rightarrow> ulong \<Rightarrow> (int \<times> event list) option" and r d y
  assume IH: "\<And>r d y. f r d = Some y \<Longrightarrow> wheel r d = Some (fst y)"
    and body: "(if d * d \<le> r
        then case strip r d 0 of None \<Rightarrow> None
             | Some (number1, exponent1) \<Rightarrow>
                 if exponent1 = 1 then Some (0, [Cond d r, Try d r])
                 else case strip number1 (d + 2) 0 of None \<Rightarrow> None
                      | Some (number2, exponent2) \<Rightarrow>
                          if exponent2 = 1
                          then Some (0, [Cond d r, Try d r, Try (d + 2) number1])
                          else Option.bind (f number2 (d + 2 + 4))
                                 (\<lambda>(v, t). Some (v, Cond d r # Try d r # Try (d + 2) number1 # t))
        else Some (if r = 1 then 1 else 0, [Cond d r])) = Some y"
  show "wheel r d = Some (fst y)"
    using body
    by (subst wheel.simps)
      (auto split: if_splits option.splits prod.splits simp: bind_eq_Some_conv dest: IH)
qed

lemma wheel_imp_wheel_log:
  assumes "wheel r d = Some v"
  shows "\<exists>t. wheel_log r d = Some (v, t)"
proof (rule wheel.raw_induct [where P = "\<lambda>r d v. \<exists>t. wheel_log r d = Some (v, t)", OF _ assms])
  fix f :: "ulong \<Rightarrow> ulong \<Rightarrow> int option" and r d v
  assume IH: "\<And>r d v. f r d = Some v \<Longrightarrow> \<exists>t. wheel_log r d = Some (v, t)"
    and body: "(if d * d \<le> r
        then case strip r d 0 of None \<Rightarrow> None
             | Some (number1, exponent1) \<Rightarrow>
                 if exponent1 = 1 then Some 0
                 else case strip number1 (d + 2) 0 of None \<Rightarrow> None
                      | Some (number2, exponent2) \<Rightarrow>
                          if exponent2 = 1 then Some 0 else f number2 (d + 2 + 4)
        else if r = 1 then Some 1 else Some 0) = Some v"
  show "\<exists>t. wheel_log r d = Some (v, t)"
    using body
    by (subst wheel_log.simps)
      (auto split: if_splits option.splits prod.splits simp: bind_eq_Some_conv dest: IH)
qed

lemma wheel_erase: "wheel r d = map_option fst (wheel_log r d)"
proof (cases "wheel_log r d")
  case None
  then have "wheel r d = None"
    using wheel_imp_wheel_log [of r d] by (cases "wheel r d") auto
  then show ?thesis using None by simp
next
  case (Some y)
  then show ?thesis using wheel_log_imp_wheel [of r d y] by simp
qed

lemma ispowerful_erase: "ispowerful n = map_option fst (ispowerful_log n)"
  by (auto simp: ispowerful_def ispowerful_log_def wheel_erase split: option.splits)

section \<open>The algorithm of the spec is correct as well\<close>

lemma cand_next: "cand c s \<Longrightarrow> cand (c + unat s) (6 - s)"
  unfolding cand_def by (elim conjE disjE) (simp_all, presburger+)

lemma cand_step_le: "cand c s \<Longrightarrow> unat s \<le> 4"
  unfolding cand_def by auto

lemma cand_step_pos: "cand c s \<Longrightarrow> 0 < unat s"
  unfolding cand_def by auto

lemma unat_plus_step:
  fixes c s :: ulong
  assumes "unat c + unat s < 2 ^ 64"
  shows "unat (c + s) = unat c + unat s"
  using assms unat_add_lem [of c s] by simp

lemma prime_next_cand:
  assumes pr: "is_prime r" and lt: "c < r" and c: "cand c s"
  shows "c + unat s \<le> r"
proof -
  have nd: "\<not> 2 dvd r \<and> \<not> 3 dvd r" using is_prime_odd [OF pr] lt c by (auto simp: cand_def)
  from c consider "c mod 6 = 5" "unat s = 2" | "c mod 6 = 1" "unat s = 4"
    by (auto simp: cand_def)
  then show ?thesis
  proof cases
    case 1
    then show ?thesis using nd lt by presburger
  next
    case 2
    then show ?thesis using nd lt by presburger
  qed
qed

lemma guarded_wheel_prime:
  fixes r c s :: ulong
  assumes pr: "is_prime (unat r)"
  shows "unat c \<le> unat r \<Longrightarrow> cand (unat c) s \<Longrightarrow> guarded_wheel r c s = Some NotPowerful"
proof (induction "unat r - unat c" arbitrary: c s rule: less_induct)
  case less
  have R: "0 < unat r" "1 < unat r" using pr by (auto simp: is_prime_def)
  have r1: "r \<noteq> 1" using R(2) by auto
  have C: "2 \<le> unat c" using less.prems(2) by (simp add: cand_def)
  have nf: "nofactor (unat c) (unat r)" using is_prime_nofactor [OF pr less.prems(1)] .
  show ?case
  proof (cases "c * c \<le> r")
    case False
    then show ?thesis using r1 by (subst guarded_wheel.simps) simp
  next
    case True
    from strip_step [OF R(1) C nf]
    obtain r1 e1 where s1: "strip r c 0 = Some (r1, e1)"
      and p1: "is_prime (unat r) \<and> unat c < unat r \<longrightarrow> r1 = r \<and> e1 = 0"
      and q1: "unat c = unat r \<longrightarrow> e1 = 1"
      by blast
    show ?thesis
    proof (cases "unat c = unat r")
      case True
      then have "e1 = 1" using q1 by simp
      then show ?thesis using s1 \<open>c * c \<le> r\<close> by (subst guarded_wheel.simps) simp
    next
      case False
      then have lt: "unat c < unat r" using less.prems(1) by simp
      then have e1: "r1 = r" "e1 = 0" using p1 pr by auto
      have le: "unat c + unat s \<le> unat r" using prime_next_cand [OF pr lt less.prems(2)] .
      have u: "unat (c + s) = unat c + unat s"
        using le unat_lt_2p64 [of r] by (intro unat_plus_step) simp
      have "unat r - unat (c + s) < unat r - unat c"
        using le cand_step_pos [OF less.prems(2)] unfolding u by linarith
      moreover have "unat (c + s) \<le> unat r" using u le by simp
      moreover have "cand (unat (c + s)) (6 - s)" using cand_next [OF less.prems(2)] u by simp
      ultimately have "guarded_wheel r (c + s) (6 - s) = Some NotPowerful"
        by (rule less.hyps)
      then show ?thesis using s1 e1 \<open>c * c \<le> r\<close> by (subst guarded_wheel.simps) simp
    qed
  qed
qed

lemma lim2_square: "(lim + 2) * (lim + 2) < 2 ^ 64"
  by (simp add: lim_def)

lemma unat_square2:
  fixes d :: ulong
  assumes "unat d \<le> lim + 2"
  shows "unat (d * d) = unat d * unat d"
proof -
  have "unat d * unat d \<le> (lim + 2) * (lim + 2)" using assms by (intro mult_le_mono)
  then have "unat d * unat d < 2 ^ LENGTH(64)" using lim2_square by simp
  then show ?thesis by (simp only: unat_mult_lem [THEN iffD1])
qed

lemma cand_top:
  assumes "cand c s" "c \<le> lim + 6" "\<not> c \<le> lim + 2"
  shows "c = lim + 6"
proof -
  have "c = lim + 3 \<or> c = lim + 4 \<or> c = lim + 5 \<or> c = lim + 6" using assms(2,3) by auto
  moreover have "(lim + 3) mod 6 = 2" "(lim + 4) mod 6 = 3" "(lim + 5) mod 6 = 4"
    by (simp_all add: lim_def)
  ultimately show ?thesis using assms(1) by (auto simp: cand_def)
qed

lemma cand_next_le:
  assumes "cand c s" "c \<le> lim + 2"
  shows "c + unat s \<le> lim + 6"
proof -
  have "unat s \<le> 4" using cand_step_le [OF assms(1)] .
  then show ?thesis using assms(2) by linarith
qed

lemma nofactor_next_cand:
  assumes "nofactor (Suc c) r" "cand c s"
  shows "nofactor (c + unat s) r"
proof -
  from assms(2) consider "c mod 6 = 5" "unat s = 2" "5 \<le> c" | "c mod 6 = 1" "unat s = 4" "5 \<le> c"
    by (auto simp: cand_def)
  then show ?thesis
  proof cases
    case 1
    have "\<not> 2 dvd c" using 1(1) by presburger
    then show ?thesis using nofactor_plus2 [OF assms(1)] 1 by simp
  next
    case 2
    have "7 \<le> c" using 2(1,3) by presburger
    then show ?thesis using nofactor_plus4 [OF assms(1) 2(1)] 2 by simp
  qed
qed

lemma guarded_wheel_correct:
  fixes r c s :: ulong
  shows "0 < unat r \<Longrightarrow> cand (unat c) s \<Longrightarrow> unat c \<le> lim + 6 \<Longrightarrow>
    nofactor (unat c) (unat r) \<Longrightarrow>
    guarded_wheel r c s = Some (if powerful (unat r) then Powerful else NotPowerful)"
proof (induction "lim + 6 - unat c" arbitrary: r c s rule: less_induct)
  case less
  note R = less.prems(1) and cd = less.prems(2) and nf = less.prems(4)
  have C: "2 \<le> unat c" using cd by (simp add: cand_def)
  show ?case
  proof (cases "unat c \<le> lim + 2")
    case False
    have cval: "unat c = lim + 6" using cand_top [OF cd less.prems(3) False] .
    have big: "unat r < unat c * unat c"
      using unat_lt_2p64 [of r] lim_facts(3) cval by simp
    show ?thesis
    proof (cases "unat r = 1")
      case True
      then have r1: "r = 1" by (metis unat_1 unsigned_word_eqI)
      have "unat c = unat (4294967297 :: ulong)" by (simp add: cval lim_def)
      then have "c = 4294967297" by (rule unsigned_word_eqI)
      then have "\<not> c * c \<le> r" using r1 by (simp add: word_le_nat_alt)
      then have "guarded_wheel r c s = Some Powerful"
        using r1 by (subst guarded_wheel.simps) simp
      then show ?thesis using r1 by (simp add: powerful_1)
    next
      case False
      then have "2 \<le> unat r" using R by simp
      then have pr: "is_prime (unat r)" using nofactor_small_is_prime [OF nf big] by simp
      have "unat c \<le> unat r" using nofactor_ge [OF nf \<open>2 \<le> unat r\<close>] .
      from guarded_wheel_prime [OF pr this cd] show ?thesis
        using not_powerful_prime [OF pr] by simp
    qed
  next
    case True
    have sq: "unat (c * c) = unat c * unat c" using unat_square2 [OF True] .
    show ?thesis
    proof (cases "c * c \<le> r")
      case False
      then have lt: "unat r < unat c * unat c" by (simp add: word_le_nat_alt sq)
      have "guarded_wheel r c s = Some (if r = 1 then Powerful else NotPowerful)"
        using False by (subst guarded_wheel.simps) simp
      moreover have "(r = 1) = powerful (unat r)"
        using classify_small [OF R nf lt] by (simp split: if_splits)
      ultimately show ?thesis by simp
    next
      case cnd: True
      from strip_step [OF R C nf]
      obtain r1 e1 where s1: "strip r c 0 = Some (r1, e1)"
        and R1: "0 < unat r1"
        and nf1: "nofactor (Suc (unat c)) (unat r1)"
        and a1: "e1 = 1 \<longrightarrow> \<not> powerful (unat r)"
        and b1: "e1 \<noteq> 1 \<longrightarrow> powerful (unat r1) = powerful (unat r)"
        by blast
      show ?thesis
      proof (cases "e1 = 1")
        case True
        then show ?thesis using s1 cnd a1 by (subst guarded_wheel.simps) simp
      next
        case e1: False
        have le: "unat c + unat s \<le> lim + 6" using cand_next_le [OF cd True] .
        have u: "unat (c + s) = unat c + unat s"
          using le lim_facts(4) by (intro unat_plus_step) simp
        have i1: "lim + 6 - unat (c + s) < lim + 6 - unat c"
          using le cand_step_pos [OF cd] unfolding u by linarith
        have i2: "cand (unat (c + s)) (6 - s)" using cand_next [OF cd] u by simp
        have i3: "unat (c + s) \<le> lim + 6" using u le by simp
        have i4: "nofactor (unat (c + s)) (unat r1)" using nofactor_next_cand [OF nf1 cd] u by simp
        from less.hyps [OF i1 R1 i2 i3 i4]
        have "guarded_wheel r1 (c + s) (6 - s) =
            Some (if powerful (unat r1) then Powerful else NotPowerful)" .
        then show ?thesis using s1 cnd e1 b1 by (subst guarded_wheel.simps) simp
      qed
    qed
  qed
qed

lemma classify_correct:
  fixes n :: ulong
  assumes "n \<noteq> 0"
  shows "classify n = Some (if powerful (unat n) then Powerful else NotPowerful)"
proof -
  have N: "0 < unat n" using assms by (simp add: unat_gt_0)
  have nf0: "nofactor (unat (2::ulong)) (unat n)" by (simp add: nofactor_def)
  from strip_step [OF N _ nf0]
  obtain r1 e1 where s1: "strip n 2 0 = Some (r1, e1)"
    and R1: "0 < unat r1"
    and nf1: "nofactor (Suc (unat (2::ulong))) (unat r1)"
    and a1: "e1 = 1 \<longrightarrow> \<not> powerful (unat n)"
    and b1: "e1 \<noteq> 1 \<longrightarrow> powerful (unat r1) = powerful (unat n)"
    by auto
  show ?thesis
  proof (cases "e1 = 1")
    case True
    then show ?thesis using assms s1 a1 by (simp add: classify_def)
  next
    case e1: False
    have nf3: "nofactor (unat (3::ulong)) (unat r1)" using nf1 by simp
    from strip_step [OF R1 _ nf3]
    obtain r2 e2 where s2: "strip r1 3 0 = Some (r2, e2)"
      and R2: "0 < unat r2"
      and nf2: "nofactor (Suc (unat (3::ulong))) (unat r2)"
      and a2: "e2 = 1 \<longrightarrow> \<not> powerful (unat r1)"
      and b2: "e2 \<noteq> 1 \<longrightarrow> powerful (unat r2) = powerful (unat r1)"
      by auto
    show ?thesis
    proof (cases "e2 = 1")
      case True
      then show ?thesis using assms s1 s2 e1 a2 b1 by (simp add: classify_def)
    next
      case e2: False
      have nf4: "nofactor 4 (unat r2)" using nf2 by simp
      have "nofactor (Suc 4) (unat r2)"
        by (rule nofactor_skip [OF nf4, of 2]) simp_all
      then have nf5: "nofactor (unat (5::ulong)) (unat r2)" by simp
      have "guarded_wheel r2 5 2 = Some (if powerful (unat r2) then Powerful else NotPowerful)"
        by (rule guarded_wheel_correct [OF R2 _ _ nf5]) (simp_all add: lim_def cand_def)
      then show ?thesis using assms s1 s2 e1 e2 b1 b2 by (simp add: classify_def)
    qed
  qed
qed

section \<open>From the invariant to the properties of a trace\<close>

lemma list_all_weaken: "list_all P xs \<Longrightarrow> (\<And>x. P x \<Longrightarrow> Q x) \<Longrightarrow> list_all Q xs"
  by (induction xs) auto

lemma good_first_guarded:
  assumes "good M e"
  shows "first_guarded M e"
proof (cases e)
  case (Try c r)
  have "c * c \<le> r \<and> (M < 18446744030759878681 \<longrightarrow> unat c * unat c \<le> unat r)"
    if m: "unat c mod 6 = 5"
  proof (intro conjI impI)
    show le: "c * c \<le> r" using assms Try m by simp
    assume "M < 18446744030759878681"
    then have "\<not> lim * lim \<le> M" by (simp add: lim_def)
    then have c2: "unat c \<le> lim + 2" using assms Try by simp
    have "unat c \<le> lim"
    proof (rule ccontr)
      assume "\<not> unat c \<le> lim"
      then have "lim + 6 \<le> unat c" using mod6_gap [OF lim_facts(1) m] by simp
      then show False using c2 by simp
    qed
    then have "unat (c * c) = unat c * unat c" by (rule unat_square)
    then show "unat c * unat c \<le> unat r" using le by (simp add: word_le_nat_alt)
  qed
  then show ?thesis using Try by simp
qed simp

lemma good_cond_exact:
  assumes "good M e" "M < lim * lim"
  shows "cond_exact e"
proof (cases e)
  case (Cond d r)
  then have "unat d \<le> lim" using assms by simp
  then have "unat d * unat d \<le> lim * lim" by (intro mult_le_mono)
  then show ?thesis using lim_facts(2) Cond by simp
qed simp

lemma good_stripped_below:
  assumes "good M e"
  shows "stripped_below e"
proof (cases e)
  case (Cond d r)
  then have "nofactor (unat d) (unat r)" using assms by simp
  then show ?thesis using Cond by (simp add: nofactor_def)
next
  case (Try c r)
  then have c: "5 \<le> unat c" and nf: "nofactor (unat c) (unat r)" using assms by simp_all
  have "r mod c \<noteq> 0 \<and> strip r c 0 = Some (r, 0)" if np: "\<not> is_prime (unat c)"
  proof -
    have nd: "\<not> unat c dvd unat r"
      using nofactor_is_prime [OF nf] c np by auto
    have m: "r mod c \<noteq> 0"
    proof
      assume "r mod c = 0"
      then have "unat r mod unat c = 0" using unat_mod [of r c] by simp
      then show False using nd by (simp add: mod_eq_0_iff_dvd)
    qed
    have "c \<noteq> 0" using c by auto
    then have "strip r c 0 = Some (r, 0)" using m by (subst strip.simps) simp
    then show ?thesis using m by simp
  qed
  then show ?thesis using Try by simp
qed

lemma all_first_guarded: "list_all (good M) t \<Longrightarrow> list_all (first_guarded M) t"
  by (erule list_all_weaken) (rule good_first_guarded)

lemma all_cond_exact: "list_all (good M) t \<Longrightarrow> M < lim * lim \<Longrightarrow> list_all cond_exact t"
  by (erule list_all_weaken) (rule good_cond_exact)

lemma all_stripped_below: "list_all (good M) t \<Longrightarrow> list_all stripped_below t"
  by (erule list_all_weaken) (rule good_stripped_below)

text \<open>The order of the events, read off the loop itself.\<close>

lemma wheel_log_exact:
  assumes "wheel_log r d = Some y"
  shows "starts_with (Cond d r) (snd y) \<and> at_cond (snd y)"
proof (rule wheel_log.raw_induct
    [where P = "\<lambda>r d y. starts_with (Cond d r) (snd y) \<and> at_cond (snd y)", OF _ assms])
  fix f :: "ulong \<Rightarrow> ulong \<Rightarrow> (int \<times> event list) option" and r d y
  assume IH: "\<And>r d y. f r d = Some y \<Longrightarrow> starts_with (Cond d r) (snd y) \<and> at_cond (snd y)"
    and body: "(if d * d \<le> r
        then case strip r d 0 of None \<Rightarrow> None
             | Some (number1, exponent1) \<Rightarrow>
                 if exponent1 = 1 then Some (0, [Cond d r, Try d r])
                 else case strip number1 (d + 2) 0 of None \<Rightarrow> None
                      | Some (number2, exponent2) \<Rightarrow>
                          if exponent2 = 1
                          then Some (0, [Cond d r, Try d r, Try (d + 2) number1])
                          else Option.bind (f number2 (d + 2 + 4))
                                 (\<lambda>(v, t). Some (v, Cond d r # Try d r # Try (d + 2) number1 # t))
        else Some (if r = 1 then 1 else 0, [Cond d r])) = Some y"
  show "starts_with (Cond d r) (snd y) \<and> at_cond (snd y)"
  proof (cases "d * d \<le> r")
    case False
    then show ?thesis using body by auto
  next
    case c: True
    then obtain r1 e1 where s1: "strip r d 0 = Some (r1, e1)"
      using body by (cases "strip r d 0") auto
    show ?thesis
    proof (cases "e1 = 1")
      case True
      then show ?thesis using body c s1 by auto
    next
      case e1: False
      then obtain r2 e2 where s2: "strip r1 (d + 2) 0 = Some (r2, e2)"
        using body c s1 by (cases "strip r1 (d + 2) 0") auto
      show ?thesis
      proof (cases "e2 = 1")
        case True
        then show ?thesis using body c s1 e1 s2 by auto
      next
        case e2: False
        then obtain v t where t: "f r2 (d + 2 + 4) = Some (v, t)"
          and y: "y = (v, Cond d r # Try d r # Try (d + 2) r1 # t)"
          using body c s1 e1 s2 by (auto simp: bind_eq_Some_conv)
        from IH [OF t] have "starts_with (Cond (d + 2 + 4) r2) t" "at_cond t" by simp_all
        then show ?thesis using y c s1 e1 s2 e2 by simp
      qed
    qed
  qed
qed

lemma ispowerful_log_entered:
  assumes "n \<noteq> 0" "ispowerful_log n = Some (v, t)"
  shows "wheel_entered n t \<and> (t = [] \<or> at_cond t)"
proof -
  obtain r1 e1 where s1: "strip2 n 0 = Some (r1, e1)"
    using assms by (cases "strip2 n 0") (auto simp: ispowerful_log_def)
  show ?thesis
  proof (cases "e1 = 1")
    case True
    then show ?thesis using assms s1 by (auto simp: ispowerful_log_def wheel_entered_def)
  next
    case e1: False
    then obtain r2 e2 where s2: "strip r1 3 0 = Some (r2, e2)"
      using assms s1 by (cases "strip r1 3 0") (auto simp: ispowerful_log_def)
    show ?thesis
    proof (cases "e2 = 1")
      case True
      then show ?thesis using assms s1 e1 s2 by (auto simp: ispowerful_log_def wheel_entered_def)
    next
      case e2: False
      then have "wheel_log r2 5 = Some (v, t)"
        using assms s1 e1 s2 by (simp add: ispowerful_log_def)
      from wheel_log_exact [OF this] show ?thesis
        using s1 e1 s2 e2 by (simp add: wheel_entered_def)
    qed
  qed
qed


section \<open>An input that reaches the wrap-around\<close>

text \<open>
  The loop meets the divisor \<open>2 ^ 32 + 1\<close> only on a number that nothing up to
  \<open>2 ^ 32\<close> divides. \<open>2 ^ 64 - 2 ^ 32 + 1 = 18446744069414584321\<close> is one: it is
  \<open>2 ^ 32 * (2 ^ 32 - 1) + 1\<close> and \<open>7 ^ (2 ^ 31 * (2 ^ 32 - 1))\<close> is \<open>-1\<close> modulo it, so by
  Fermat's little theorem each of its prime divisors is 1 modulo \<open>2 ^ 32\<close>.
\<close>

lemma pow_mod_correct: "pow_mod a e n = a ^ e mod n"
proof (induction a e n rule: pow_mod.induct)
  case (1 a e n)
  show ?case
  proof (cases "e = 0")
    case True
    then show ?thesis by (subst pow_mod.simps) simp
  next
    case False
    show ?thesis
    proof (cases "even e")
      case True
      then have e: "e = 2 * (e div 2)" by simp
      have "pow_mod a e n = (a ^ (e div 2) mod n)\<^sup>2 mod n"
        using False True "1.IH"(1) by (subst pow_mod.simps) simp
      also have "\<dots> = (a ^ (e div 2))\<^sup>2 mod n" by (simp add: power_mod)
      also have "(a ^ (e div 2))\<^sup>2 = a ^ e"
      proof -
        have "a ^ e = a ^ (2 * (e div 2))" using e by (rule arg_cong)
        then show ?thesis by (simp add: power_even_eq)
      qed
      finally show ?thesis .
    next
      case odd: False
      then have e: "e = 2 * (e div 2) + 1" by simp
      have "pow_mod a e n = (a ^ (e div 2) mod n)\<^sup>2 * a mod n"
        using False odd "1.IH"(2) by (subst pow_mod.simps) simp
      also have "\<dots> = ((a ^ (e div 2) mod n)\<^sup>2 mod n) * a mod n" by (simp add: mod_mult_left_eq)
      also have "\<dots> = ((a ^ (e div 2))\<^sup>2 mod n) * a mod n" by (simp add: power_mod)
      also have "\<dots> = (a ^ (e div 2))\<^sup>2 * a mod n" by (simp add: mod_mult_left_eq)
      also have "(a ^ (e div 2))\<^sup>2 * a = a ^ e"
      proof -
        have "a ^ e = a ^ (2 * (e div 2) + 1)" using e by (rule arg_cong)
        then show ?thesis by (simp add: power_even_eq)
      qed
      finally show ?thesis .
    qed
  qed
qed

lemma pow_mod_7: "pow_mod 7 9223372034707292160 18446744069414584321 = 18446744069414584320"
  by (simp add: pow_mod.simps)

lemma is_prime_dvd_choose:
  assumes p: "is_prime p" and k: "0 < k" "k < p"
  shows "p dvd (p choose k)"
proof -
  obtain n where n: "p = Suc n" using k by (cases p) auto
  obtain j where j: "k = Suc j" using k by (cases k) auto
  have "k * (p choose k) = p * (n choose j)"
    unfolding n j by (rule Suc_times_binomial)
  then have "p dvd k * (p choose k)" by simp
  moreover have "\<not> p dvd k" using k by (auto dest: dvd_imp_le)
  ultimately show ?thesis using is_prime_dvd_mult [OF p] by blast
qed

lemma fermat_step:
  assumes p: "is_prime p"
  shows "(a + 1) ^ p mod p = (a ^ p + 1) mod p"
proof -
  obtain n where n: "p = Suc n" using is_prime_gt_1 [OF p] by (cases p) auto
  define f where "f k = (p choose k) * a ^ k" for k
  have "(a + 1) ^ p = (\<Sum>k\<le>p. f k)"
    unfolding f_def by (subst binomial) simp
  also have "\<dots> = f 0 + (\<Sum>i<n. f (Suc i)) + f p"
    unfolding n by (simp add: sum.atMost_shift)
  finally have eq: "(a + 1) ^ p = 1 + (\<Sum>i<n. f (Suc i)) + a ^ p"
    by (simp add: f_def)
  have "p dvd (\<Sum>i<n. f (Suc i))"
  proof (rule dvd_sum)
    fix i assume "i \<in> {..<n}"
    then have "0 < Suc i" "Suc i < p" using n by auto
    then have "p dvd (p choose Suc i)" by (rule is_prime_dvd_choose [OF p])
    then show "p dvd f (Suc i)" unfolding f_def by (rule dvd_mult2)
  qed
  then obtain m where m: "(\<Sum>i<n. f (Suc i)) = p * m" by (auto simp: dvd_def)
  show ?thesis unfolding eq m by (simp add: add.commute add.left_commute)
qed

lemma fermat_power: "is_prime p \<Longrightarrow> a ^ p mod p = a mod p"
proof (induction a)
  case 0
  then show ?case using is_prime_gt_1 [of p] by (simp add: zero_power)
next
  case (Suc a)
  have "Suc a ^ p mod p = (a ^ p + 1) mod p"
    using fermat_step [OF Suc.prems, of a] by simp
  also have "\<dots> = (a ^ p mod p + 1) mod p" by (simp add: mod_Suc_eq)
  also have "\<dots> = (a mod p + 1) mod p" using Suc by simp
  also have "\<dots> = Suc a mod p" by (simp add: mod_Suc_eq)
  finally show ?case .
qed

lemma fermat_little:
  assumes p: "is_prime p" and nd: "\<not> p dvd a"
  shows "a ^ (p - 1) mod p = 1"
proof -
  have p1: "1 < p" using is_prime_gt_1 [OF p] .
  have a0: "0 < a" using nd by (cases a) auto
  then have ge: "1 \<le> a ^ (p - 1)" by simp
  have "a ^ p = a * a ^ (p - 1)" using p1 by (cases p) auto
  then have "a ^ p - a = a * (a ^ (p - 1) - 1)" by (simp add: right_diff_distrib')
  moreover have "a \<le> a ^ p" using a0 p1 by (cases p) auto
  then have "p dvd a ^ p - a"
    using fermat_power [OF p, of a] by (simp add: mod_eq_dvd_iff_nat)
  ultimately have "p dvd a * (a ^ (p - 1) - 1)" by simp
  then have d: "p dvd a ^ (p - 1) - 1" using is_prime_dvd_mult [OF p] nd by blast
  have e: "a ^ (p - 1) mod p = 1 mod p"
    by (rule mod_eq_dvd_iff_nat [THEN iffD2, OF ge d])
  have "(1::nat) mod p = 1" using p1 by simp
  with e show ?thesis by (simp only:)
qed

lemma power_one_gcd:
  fixes a q m n :: nat
  assumes q: "1 < q" and m: "a ^ m mod q = 1" and n: "a ^ n mod q = 1"
  shows "a ^ gcd m n mod q = 1"
proof (cases "m = 0")
  case True
  then show ?thesis using n by simp
next
  case False
  from bezout_nat [OF False, of n]
  obtain x y where xy: "m * x = n * y + gcd m n" by blast
  have "a ^ (m * x) mod q = (a ^ m mod q) ^ x mod q" by (simp add: power_mult power_mod)
  then have l: "a ^ (m * x) mod q = 1" using m q by simp
  have "a ^ (n * y) mod q = (a ^ n mod q) ^ y mod q" by (simp add: power_mult power_mod)
  then have r: "a ^ (n * y) mod q = 1" using n q by simp
  have "a ^ (n * y + gcd m n) mod q = (a ^ (n * y) mod q) * (a ^ gcd m n) mod q"
    by (simp add: power_add mod_mult_left_eq)
  then have "a ^ (n * y + gcd m n) mod q = a ^ gcd m n mod q" using r by simp
  then show ?thesis using l xy by simp
qed

lemma dvd_two_power:
  fixes d :: nat
  shows "d dvd 2 ^ Suc k \<Longrightarrow> d dvd 2 ^ k \<or> d = 2 ^ Suc k"
proof (induction k arbitrary: d)
  case 0
  then have d2: "d dvd 2" by simp
  then have "d \<le> 2" by (rule dvd_imp_le) simp
  moreover have "d \<noteq> 0"
  proof
    assume "d = 0"
    with d2 show False by simp
  qed
  ultimately have "d = 1 \<or> d = 2" by auto
  then show ?case by auto
next
  case (Suc k)
  show ?case
  proof (cases "even d")
    case True
    then obtain e where e: "d = 2 * e" by (auto elim: evenE)
    then have "e dvd 2 ^ Suc k" using Suc.prems by simp
    then have "e dvd 2 ^ k \<or> e = 2 ^ Suc k" by (rule Suc.IH)
    then show ?thesis using e by auto
  next
    case False
    then have "coprime d 2" by simp
    then have "coprime d (2 ^ Suc (Suc k))" by (simp only: coprime_power_right_iff) simp
    then have "gcd d (2 ^ Suc (Suc k)) = 1" by (simp only: coprime_iff_gcd_eq_1)
    moreover have "d dvd gcd d (2 ^ Suc (Suc k))" using Suc.prems by simp
    ultimately have "d = 1" by simp
    then show ?thesis by simp
  qed
qed

lemma minus_one_mod:
  fixes q n :: nat
  assumes "q dvd n" "0 < n" "1 < q"
  shows "(n - 1) mod q = q - 1"
proof -
  obtain j where j: "n = q * j" using assms(1) by (auto simp: dvd_def)
  then have "0 < j" using assms(2) by (cases j) auto
  then obtain i where i: "j = Suc i" by (cases j) auto
  have "n = q * i + (q - 1) + 1" using j i assms(3) by simp
  then have "n - 1 = q * i + (q - 1)" by simp
  moreover have "(q * i + (q - 1)) mod q = (q - 1) mod q" by (rule mod_mult_self4)
  moreover have "(q - 1) mod q = q - 1" using assms(3) by simp
  ultimately show ?thesis by (simp only:)
qed

lemma square_minus_one_mod:
  fixes q :: nat
  assumes "1 < q"
  shows "(q - 1) * (q - 1) mod q = 1"
proof -
  obtain r where r: "q = Suc (Suc r)" using assms by (cases q; cases "q - 1") auto
  have "(q - 1) * (q - 1) = q * r + 1" unfolding r by simp
  moreover have "(q * r + 1) mod q = 1 mod q" by (rule mod_mult_self4)
  moreover have "(1::nat) mod q = 1" using assms by simp
  ultimately show ?thesis by (simp only:)
qed

lemma proth_factor:
  fixes q n a k m :: nat
  assumes q: "is_prime q" and qn: "q dvd n" and odd: "odd n"
    and pw: "a ^ (2 ^ k * m) mod n = n - 1"
  shows "2 ^ Suc k dvd q - 1"
proof -
  have q1: "1 < q" using is_prime_gt_1 [OF q] .
  have n0: "0 < n" using odd by (cases n) auto
  have "odd q" using qn odd by (auto dest: dvd_trans)
  then have q3: "3 \<le> q" using q1 by (cases "q = 2") auto
  define c where "c = a ^ m"
  have ck: "c ^ (2 ^ k) = a ^ (2 ^ k * m)" unfolding c_def by (simp add: power_mult [symmetric] mult.commute)
  have "c ^ (2 ^ k) mod q = (c ^ (2 ^ k) mod n) mod q" using qn by (simp add: mod_mod_cancel)
  also have "\<dots> = (n - 1) mod q" using pw ck by simp
  also have "\<dots> = q - 1" using minus_one_mod [OF qn n0 q1] .
  finally have half: "c ^ (2 ^ k) mod q = q - 1" .
  have "c ^ (2 ^ Suc k) = c ^ (2 ^ k) * c ^ (2 ^ k)" by (simp add: power_add [symmetric] mult_2)
  then have "c ^ (2 ^ Suc k) mod q = (c ^ (2 ^ k) mod q) * (c ^ (2 ^ k) mod q) mod q"
    by (simp add: mod_mult_eq)
  then have full: "c ^ (2 ^ Suc k) mod q = 1"
    using half square_minus_one_mod [OF q1] by simp
  have nd: "\<not> q dvd c"
  proof
    assume "q dvd c"
    moreover have "c dvd c ^ (2 ^ Suc k)" by (rule dvd_power) simp
    ultimately have "q dvd c ^ (2 ^ Suc k)" by (rule dvd_trans)
    then show False using full by (simp add: mod_eq_0_iff_dvd [symmetric])
  qed
  have fl: "c ^ (q - 1) mod q = 1" using fermat_little [OF q nd] .
  define g where "g = gcd (2 ^ Suc k) (q - 1)"
  have cg: "c ^ g mod q = 1" unfolding g_def using power_one_gcd [OF q1 full fl] .
  have "g dvd 2 ^ Suc k" unfolding g_def by simp
  then have "g dvd 2 ^ k \<or> g = 2 ^ Suc k" by (rule dvd_two_power)
  moreover have "\<not> g dvd 2 ^ k"
  proof
    assume "g dvd 2 ^ k"
    then obtain j where j: "2 ^ k = g * j" by (auto simp: dvd_def)
    have "c ^ (2 ^ k) mod q = (c ^ g mod q) ^ j mod q"
      unfolding j by (simp add: power_mult power_mod)
    then have "c ^ (2 ^ k) mod q = 1" using cg q1 by simp
    then show False using half q3 by simp
  qed
  ultimately have "g = 2 ^ Suc k" by blast
  moreover have "g dvd q - 1" unfolding g_def by simp
  ultimately show ?thesis by simp
qed

lemma big_prime_factors:
  assumes q: "is_prime q" and qn: "q dvd 18446744069414584321"
  shows "4294967297 \<le> q"
proof -
  have e: "(2::nat) ^ 31 * 4294967295 = 9223372034707292160" by simp
  have n1: "(18446744069414584321::nat) - 1 = 18446744069414584320" by simp
  have pw: "7 ^ (2 ^ 31 * 4294967295) mod 18446744069414584321 = (18446744069414584321::nat) - 1"
    unfolding e n1 pow_mod_correct [symmetric] by (rule pow_mod_7)
  have "2 ^ Suc 31 dvd q - 1" by (rule proth_factor [OF q qn _ pw]) simp
  moreover have "0 < q - 1" using is_prime_gt_1 [OF q] by simp
  ultimately have "2 ^ Suc 31 \<le> q - 1" by (rule dvd_imp_le)
  then show ?thesis by simp
qed

lemma big_prime_nofactor: "nofactor (lim + 6) 18446744069414584321"
  unfolding nofactor_def
proof (intro ballI notI)
  fix k :: nat
  assume k: "k \<in> {2..<lim + 6}" and dv: "k dvd 18446744069414584321"
  from k have "2 \<le> k" by simp
  then obtain q where q: "is_prime q" "q dvd k" using exists_prime_factor by blast
  have "q \<le> k" using q(2) k by (intro dvd_imp_le) auto
  moreover have "4294967297 \<le> q" using big_prime_factors [OF q(1)] q(2) dv by (blast dest: dvd_trans)
  ultimately show False using k by (simp add: lim_def)
qed

lemma wheel_log_head:
  assumes "wheel_log r d = Some (v, t)"
  shows "\<exists>t'. t = Cond d r # t'"
  using assms
  by (subst (asm) wheel_log.simps)
    (auto split: if_splits option.splits prod.splits simp: bind_eq_Some_conv)

lemma wheel_log_reach:
  fixes r d :: ulong
  assumes nf: "nofactor (lim + 6) (unat r)" and big: "lim * lim \<le> unat r"
  shows "unat d mod 6 = 5 \<Longrightarrow> unat d \<le> lim + 6 \<Longrightarrow>
    \<exists>v t. wheel_log r d = Some (v, t) \<and> Cond 4294967297 r \<in> set t"
proof (induction "lim + 6 - unat d" arbitrary: d rule: less_induct)
  case less
  note m6 = less.prems(1)
  have R: "0 < unat r" using big by (simp add: lim_def)
  have D: "2 \<le> unat d" using m6 by presburger
  show ?case
  proof (cases "unat d \<le> lim")
    case False
    then have "lim + 6 \<le> unat d" using mod6_gap [OF lim_facts(1) m6] by simp
    then have dval: "unat d = lim + 6" using less.prems(2) by simp
    then have "unat d = unat (4294967297 :: ulong)" by (simp add: lim_def)
    then have d: "d = 4294967297" by (rule unsigned_word_eqI)
    have "nofactor (unat d) (unat r)" using nf dval by simp
    from wheel_log_correct [OF R m6 less.prems(2) this order_refl, of ]
    obtain v t where "wheel_log r d = Some (v, t)" using big by blast
    then show ?thesis using wheel_log_head [of r d v t] d by auto
  next
    case True
    have nfd: "nofactor (unat d) (unat r)" using nofactor_mono [OF nf] True by simp
    have "unat d * unat d \<le> lim * lim" using True by (intro mult_le_mono)
    then have c: "d * d \<le> r" using big by (simp add: word_le_nat_alt unat_square [OF True])
    have "\<not> unat d dvd unat r" using nofactorD [OF nf D] True by simp
    with strip_step [OF R D nfd] have s1: "strip r d 0 = Some (r, 0)" by auto
    have u2: "unat (d + 2) = unat d + 2"
      using True lim_facts(4) by (intro unat_plus2) simp
    have D2: "2 \<le> unat (d + 2)" using u2 by simp
    have nfd2: "nofactor (unat (d + 2)) (unat r)" using nofactor_mono [OF nf] True u2 by simp
    have "\<not> unat (d + 2) dvd unat r" using nofactorD [OF nf D2] True u2 by simp
    with strip_step [OF R D2 nfd2] have s2: "strip r (d + 2) 0 = Some (r, 0)" by auto
    have u6: "unat (d + 2 + 4) = unat d + 6"
      using True lim_facts(4) by (intro unat_plus6) simp
    have "lim + 6 - unat (d + 2 + 4) < lim + 6 - unat d" using u6 True by simp
    moreover have "unat (d + 2 + 4) mod 6 = 5" using u6 m6 by presburger
    moreover have "unat (d + 2 + 4) \<le> lim + 6" using u6 True by simp
    ultimately obtain v t where t: "wheel_log r (d + 2 + 4) = Some (v, t)"
      "Cond 4294967297 r \<in> set t"
      using less.hyps by blast
    have "wheel_log r d = Some (v, Cond d r # Try d r # Try (d + 2) r # t)"
      using c s1 s2 t(1) by (subst wheel_log.simps) simp
    then show ?thesis using t(2) by simp
  qed
qed

section \<open>The claims\<close>

text \<open>
  C1. For every input \<open>n \<ge> 1\<close> of the 64-bit range, \<open>ispowerful\<close> returns 1 when \<open>n\<close> is
  powerful (the square of every prime divisor of \<open>n\<close> divides \<open>n\<close>) and 0 otherwise; and
  \<open>n\<close> is powerful exactly when it is \<open>a\<^sup>2 * b\<^sup>3\<close> for some positive \<open>a\<close> and \<open>b\<close>. No
  input is excluded: the statement covers the values near \<open>2 ^ 64\<close> as well.
\<close>

theorem ispowerful_classifies:
  "n \<noteq> 0 \<Longrightarrow>
   ispowerful n = Some (if powerful (unat n) then 1 else 0) \<and>
   powerful (unat n) = (\<exists>a b. 0 < a \<and> 0 < b \<and> unat n = a\<^sup>2 * b ^ 3)"
proof -
  assume n: "n \<noteq> 0"
  then have "0 < unat n" by (simp add: unat_gt_0)
  then have b: "powerful (unat n) = (\<exists>a b. 0 < a \<and> 0 < b \<and> unat n = a\<^sup>2 * b ^ 3)"
    by (rule powerful_iff_square_cube)
  have a: "ispowerful n = Some (if powerful (unat n) then 1 else 0)"
    using ispowerful_log_correct [OF n] by (auto simp: ispowerful_erase)
  show ?thesis by (rule conjI [OF a b])
qed

theorem ispowerful_classifies_witness:
  "(72::ulong) \<noteq> 0 \<and> ispowerful 72 = Some 1 \<and> powerful (unat (72::ulong)) \<and>
   (\<exists>a b. 0 < a \<and> 0 < b \<and> unat (72::ulong) = a\<^sup>2 * b ^ 3)"
proof -
  have "ispowerful 72 = Some 1"
    by (simp add: ispowerful_def strip2.simps strip.simps wheel.simps word_le_nat_alt)
  then show ?thesis using ispowerful_classifies [of 72] by (auto split: if_splits)
qed

text \<open>
  C2. For every input, \<open>ispowerful\<close> returns one of 1, 0 and -1, and it returns -1 exactly
  when the input is 0.
\<close>

theorem ispowerful_range:
  "\<exists>v. ispowerful n = Some v \<and> v \<in> {1, 0, - 1} \<and> (v = - 1) = (n = 0)"
proof (cases "n = 0")
  case True
  then show ?thesis by (simp add: ispowerful_def)
next
  case False
  then show ?thesis using ispowerful_log_correct [of n] by (auto simp: ispowerful_erase)
qed

text \<open>
  C3. For every input, \<open>ispowerful\<close> terminates with exactly one value: the run is never
  \<open>None\<close>, also where \<open>divisor * divisor\<close> wraps around. The value depends on the input
  alone, as the function reads and writes no other state.
\<close>

theorem ispowerful_terminates: "\<exists>!v. ispowerful n = Some v"
proof (cases "n = 0")
  case True
  then show ?thesis by (simp add: ispowerful_def)
next
  case False
  then show ?thesis using ispowerful_log_correct [of n] by (auto simp: ispowerful_erase)
qed

text \<open>
  C4, as the code has it. For every input \<open>n \<ge> 1\<close> the divisors tried in the loop are
  exactly 5, 7, 11, 13, 17, 19, ..., in increasing order, none left out and none repeated,
  for as long as the loop runs:
  \<^item> the numbers tried are, in order, an initial segment of 5, 7, 11, 13, ...;
  \<^item> unless the function returns on the factor 2 or 3, the run starts with the loop
    condition for the divisor 5;
  \<^item> a loop condition that holds, also at the boundary \<open>divisor * divisor = number\<close>, is
    followed at once by the trial of that divisor, that one (unless its exponent is 1, where
    the function returns) by the trial of the divisor plus 2, and that one (unless its
    exponent is 1) by the loop condition for the next pair; a loop condition that fails ends
    the run.
  The bound \<open>divisor * divisor <= number\<close> holds whenever the first divisor of a pair
  (5, 11, 17, ...) is tried: as the 64-bit comparison of the code on every input, and of
  the product itself on every input below \<open>(2 ^ 32 - 5)\<^sup>2\<close>. The second divisor of a pair
  (7, 13, 19, ...) is tried without the bound being tested again.
\<close>

theorem wheel_divisors:
  "n \<noteq> 0 \<Longrightarrow>
   \<exists>v t. ispowerful_log n = Some (v, t) \<and> wheel_from 5 (tried t) \<and>
         wheel_entered n t \<and> (t = [] \<or> at_cond t) \<and>
         list_all (first_guarded (unat n)) t"
proof -
  assume n: "n \<noteq> 0"
  from ispowerful_log_correct [OF n]
  obtain v t where t: "ispowerful_log n = Some (v, t)" "list_all (good (unat n)) t"
    "wheel_from 5 (tried t)"
    by blast
  from ispowerful_log_entered [OF n t(1)] all_first_guarded [OF t(2)] t(1,3)
  show ?thesis by blast
qed

text \<open>
  On 25 the loop condition is met at its boundary, \<open>5 * 5 = 25\<close>, and 5 is tried.
\<close>

theorem wheel_divisors_witness:
  "(25::ulong) \<noteq> 0 \<and>
   ispowerful_log 25 = Some (1, [Cond 5 25, Try 5 25, Try 7 1, Cond 11 1]) \<and>
   (\<exists>v t. ispowerful_log 25 = Some (v, t) \<and> wheel_from 5 (tried t) \<and>
          wheel_entered 25 t \<and> (t = [] \<or> at_cond t) \<and>
          list_all (first_guarded (unat (25::ulong))) t)"
proof -
  have "ispowerful_log 25 = Some (1, [Cond 5 25, Try 5 25, Try 7 1, Cond 11 1])"
    by (simp add: ispowerful_log_def strip2.simps strip.simps wheel_log.simps word_le_nat_alt)
  then show ?thesis using wheel_divisors [of 25] by simp
qed

text \<open>
  C4 as stated fails on 175: after 5 is stripped twice the number is 7, and the divisor 7 is
  tried and stripped although \<open>7 * 7 > 7\<close>.
\<close>

theorem unguarded_second_divisor:
  "ispowerful_log 175 = Some (0, [Cond 5 175, Try 5 175, Try 7 7]) \<and>
   \<not> list_all guard_held [Cond 5 175, Try 5 175, Try 7 7]"
  by (simp add: ispowerful_log_def strip2.simps strip.simps wheel_log.simps word_le_nat_alt)

text \<open>
  C5, as the code has it. A wrong number of arguments, an argument out of the range of
  \<open>long\<close> and a negative argument are caught before the core function is called: \<open>main\<close>
  exits with failure and \<open>ispowerful\<close> is not called.
\<close>

theorem main_rejects:
  assumes "argv \<noteq> []"
    and "length argv \<noteq> 2 \<or> snd (strtol (argv ! 1)) \<or> fst (strtol (argv ! 1)) < 0"
  shows "\<exists>r. main argv = Some r \<and> status r = EXIT_FAILURE \<and> core_arg r = None"
proof (cases "length argv = 2")
  case False
  then show ?thesis using assms(1) by (cases argv) (simp_all add: main_def)
next
  case True
  then show ?thesis using assms(2) by (auto simp: main_def split: prod.splits)
qed

theorem main_rejects_witness:
  "[''powerful'', ''-72''] \<noteq> [] \<and> fst (strtol ([''powerful'', ''-72''] ! 1)) < 0 \<and>
   (\<exists>r. main [''powerful'', ''-72''] = Some r \<and> status r = EXIT_FAILURE \<and> core_arg r = None)"
proof -
  have h: "fst (strtol ([''powerful'', ''-72''] ! 1)) < 0"
    by (simp add: strtol_def is_space_def digit_of_def magnitude_def LONG_MAX_def LONG_MIN_def)
  then show ?thesis using main_rejects [of "[''powerful'', ''-72'']"] by blast
qed

text \<open>
  C5 as stated fails on the argument \<open>abc\<close>: \<open>strtol\<close> converts nothing and returns 0
  without an error, so \<open>ispowerful(0)\<close> is called, \<open>-1\<close> is printed and the exit status is
  success.
\<close>

theorem main_accepts_non_numeric:
  "main [''powerful'', ''abc''] =
     Some \<lparr>status = EXIT_SUCCESS, stdout = ''-1'' @ [CHR 0x0A], stderr = [], core_arg = Some 0\<rparr>"
  by (simp add: main_def strtol_def is_space_def digit_of_def magnitude_def LONG_MAX_def
      LONG_MIN_def printf_d_def ispowerful_def)

text \<open>
  C6, as the code has it. For every input below \<open>(2 ^ 32 - 5)\<^sup>2 = 18446744030759878681\<close>,
  no evaluation of \<open>divisor * divisor <= number\<close> wraps around.
\<close>

theorem no_wrap_below_bound:
  "unat n < 18446744030759878681 \<Longrightarrow>
   \<exists>v t. ispowerful_log n = Some (v, t) \<and> list_all cond_exact t"
proof (cases "n = 0")
  case True
  then show ?thesis by (simp add: ispowerful_log_def)
next
  case False
  assume "unat n < 18446744030759878681"
  then have "unat n < lim * lim" by (simp add: lim_def)
  then show ?thesis
    using ispowerful_log_correct [OF False] all_cond_exact by blast
qed

theorem no_wrap_below_bound_witness:
  "unat (841::ulong) < 18446744030759878681 \<and>
   (\<exists>v t. ispowerful_log 841 = Some (v, t) \<and> list_all cond_exact t)"
  using no_wrap_below_bound [of 841] by simp

text \<open>
  C6 as stated fails on the prime \<open>2 ^ 64 - 2 ^ 32 + 1\<close>: the loop condition is evaluated with
  the divisor \<open>2 ^ 32 + 1\<close>, whose square is above \<open>2 ^ 64\<close>.
\<close>

theorem wrap_at_large_prime:
  "\<exists>v t. ispowerful_log 18446744069414584321 = Some (v, t) \<and> \<not> list_all cond_exact t"
proof -
  define n :: ulong where "n = 18446744069414584321"
  have u: "unat n = 18446744069414584321" by (simp add: n_def)
  have "ispowerful_log n = wheel_log n 5"
    by (simp add: n_def ispowerful_log_def strip2.simps strip.simps)
  moreover have "\<exists>v t. wheel_log n 5 = Some (v, t) \<and> Cond 4294967297 n \<in> set t"
    by (rule wheel_log_reach) (simp_all add: u big_prime_nofactor, simp_all add: lim_def)
  ultimately obtain v t where t: "ispowerful_log n = Some (v, t)" "Cond 4294967297 n \<in> set t"
    by auto
  have "\<not> cond_exact (Cond 4294967297 n)" by simp
  with t(2) have "\<not> list_all cond_exact t" unfolding list_all_iff by blast
  then show ?thesis using t(1) unfolding n_def by blast
qed

text \<open>
  C7. On input 1 the result is 1, and it comes out of the procedure itself: both stripping
  loops leave the number 1 with exponent 0, the loop condition \<open>5 * 5 <= 1\<close> is false, so
  the trace holds that one evaluation and no divisor is tried, and the residual is 1.
\<close>

theorem ispowerful_one:
  "ispowerful 1 = Some 1 \<and> strip2 1 0 = Some (1, 0) \<and> strip 1 3 0 = Some (1, 0) \<and>
   \<not> (5 * 5 \<le> (1::ulong)) \<and> ispowerful_log 1 = Some (1, [Cond 5 1])"
  by (simp add: ispowerful_def ispowerful_log_def strip2.simps strip.simps wheel.simps
      wheel_log.simps word_le_nat_alt)

text \<open>
  C8. For every input \<open>n \<ge> 1\<close>, at each evaluation of the loop condition with divisor \<open>d\<close>
  and number \<open>r\<close>, no prime below \<open>d\<close> divides \<open>r\<close>; and each composite divisor that is
  tried does not divide the number: its stripping loop runs zero times and changes nothing.
\<close>

theorem loop_invariant:
  "n \<noteq> 0 \<Longrightarrow> \<exists>v t. ispowerful_log n = Some (v, t) \<and> list_all stripped_below t"
  using ispowerful_log_correct [of n] all_stripped_below by blast

theorem loop_invariant_witness:
  "(841::ulong) \<noteq> 0 \<and> (\<exists>v t. ispowerful_log 841 = Some (v, t) \<and> list_all stripped_below t)"
  using loop_invariant [of 841] by simp

text \<open>
  C9. The code tries the second divisor of each pair without testing
  \<open>divisor * divisor <= number\<close> again; the algorithm of the spec tests every divisor. On
  every input both return a value, and the same one (\<open>code\<close> turns the classification of
  the spec into the integer of the code).
\<close>

theorem unguarded_is_guarded: "ispowerful n = map_option code (classify n) \<and> classify n \<noteq> None"
proof (cases "n = 0")
  case True
  then show ?thesis by (simp add: ispowerful_def classify_def)
next
  case False
  then show ?thesis
    using ispowerful_log_correct [of n] classify_correct [of n]
    by (auto simp: ispowerful_erase)
qed

text \<open>
  C10. The loop that strips the factor 2 with \<open>&\<close> and \<open>>>\<close> is the loop that strips it with
  \<open>%\<close> and \<open>/\<close>: same residual, same exponent, for every number and every starting
  exponent (on 0 neither loop ends).
\<close>

theorem strip2_is_strip: "strip2 number exponent = strip number 2 exponent"
  by (rule strip2_strip)

end
